theory Spec2Isabelle
  imports Main "HOL-Library.Word"
begin

section \<open>UnoWiFi DSC: digital setting circles over WiFi\<close>

text \<open>
  The development embeds \<^verbatim>\<open>UnoWiFi_DSC.ino\<close>. Of the half that runs on the ESP8266: the
  serial line parser \<^verbatim>\<open>readFromSerial\<close>, the run loop \<^verbatim>\<open>loop\<close>, the start-up
  \<^verbatim>\<open>setup\<close> and the TCP server \<^verbatim>\<open>attendTcpRequests\<close>; of the half that runs on the
  Arduino Uno: the line it sends (last section). Bytes are HOL characters (8 bits), C strings
  are character lists read up to the first NUL, and the static and global variables of the
  sketch are fields of explicit state.
\<close>

subsection \<open>Bytes and constants of the sketch\<close>

definition NUL :: char where "NUL = CHR 0x00"
definition TAB :: char where "TAB = CHR 0x09"
definition LF :: char where "LF = CHR 0x0A"
definition CR :: char where "CR = CHR 0x0D"

definition BUFFER_SIZE :: nat where "BUFFER_SIZE = 80"
definition MAX_SRV_CLIENTS :: nat where "MAX_SRV_CLIENTS = 3"
definition AZIMUTH_TOTAL_STEPS :: nat where "AZIMUTH_TOTAL_STEPS = 10200"
definition ALTITUDE_TOTAL_STEPS :: nat where "ALTITUDE_TOTAL_STEPS = 10200"

subsection \<open>The serial line parser\<close>

text \<open>
  \<^verbatim>\<open>Serial.read()\<close> returns the next byte as an \<^verbatim>\<open>int\<close> in 0..255, or -1 when no byte
  is available. The argument is what the UART holds: \<open>None\<close> for nothing.
\<close>

definition Serial_read :: "char option \<Rightarrow> int" where
  "Serial_read r = (case r of None \<Rightarrow> - 1 | Some c \<Rightarrow> int (of_char c))"

text \<open>
  \<^verbatim>\<open>readFromSerial\<close>: the caller's array \<^verbatim>\<open>buffer\<close> and the static \<^verbatim>\<open>pos\<close> are passed in
  and returned; the first component is the function's return value. \<^verbatim>\<open>pos\<close> is an
  \<^verbatim>\<open>int\<close> in the sketch that only ever holds 0..79, so it is a natural number here.
\<close>

definition readFromSerial :: "string \<Rightarrow> nat \<Rightarrow> char option \<Rightarrow> nat \<times> string \<times> nat" where
  "readFromSerial buffer pos r =
     (let character = Serial_read r in
      if character > 0 then
        (if character = 13 then (0, buffer, pos)
         else if character = 10 then (pos, buffer, 0)
         else if pos < BUFFER_SIZE - 1
           then (0, (buffer[pos := char_of character])[Suc pos := NUL], Suc pos)
           else (0, buffer, pos))
      else (0, buffer, pos))"

text \<open>The array \<^verbatim>\<open>buf\<close> is a zero-initialised global of \<^verbatim>\<open>BUFFER_SIZE\<close> bytes.\<close>

definition buf_init :: string where
  "buf_init = replicate BUFFER_SIZE NUL"

text \<open>
  Feeding a sequence of UART observations, one call each; the result collects the return
  values of the calls (latest last) with the array and the position reached.
\<close>

fun feed :: "string \<Rightarrow> nat \<Rightarrow> char option list \<Rightarrow> nat list \<times> string \<times> nat" where
  "feed buffer pos [] = ([], buffer, pos)"
| "feed buffer pos (r # rs) =
     (case readFromSerial buffer pos r of
        (n, buffer', pos') \<Rightarrow>
          (case feed buffer' pos' rs of (ns, b, p) \<Rightarrow> (n # ns, b, p)))"

subsection \<open>Basic facts about bytes\<close>

lemma of_char_nat_less_256: "(of_char c :: nat) < 256"
  by (metis of_char_mod_256 mod_less_divisor zero_less_numeral)

lemma of_char_nat_eq_0_iff: "(of_char c :: nat) = 0 \<longleftrightarrow> c = NUL"
  unfolding NUL_def by (cases c) simp

lemma of_char_nat_eq_10_iff: "(of_char c :: nat) = 10 \<longleftrightarrow> c = LF"
proof -
  have "(of_char c :: nat) = 10 \<longleftrightarrow> (of_char c :: nat) = of_char LF"
    by (simp add: LF_def)
  then show ?thesis by (simp only: of_char_eq_iff)
qed

lemma of_char_nat_eq_13_iff: "(of_char c :: nat) = 13 \<longleftrightarrow> c = CR"
proof -
  have "(of_char c :: nat) = 13 \<longleftrightarrow> (of_char c :: nat) = of_char CR"
    by (simp add: CR_def)
  then show ?thesis by (simp only: of_char_eq_iff)
qed

lemma char_of_Serial_read: "char_of (Serial_read (Some c)) = c"
proof -
  have "char_of (int (of_char c)) = char_of (of_char c :: nat)"
    by (simp add: char_of_def bit_of_nat_iff_bit)
  then show ?thesis by (simp add: Serial_read_def)
qed

text \<open>The parser, by cases on what the UART holds.\<close>

lemma readFromSerial_None: "readFromSerial buffer pos None = (0, buffer, pos)"
  by (simp add: readFromSerial_def Serial_read_def)

lemma readFromSerial_NUL: "readFromSerial buffer pos (Some NUL) = (0, buffer, pos)"
  by (simp add: readFromSerial_def Serial_read_def NUL_def)

lemma readFromSerial_CR: "readFromSerial buffer pos (Some CR) = (0, buffer, pos)"
  by (simp add: readFromSerial_def Serial_read_def CR_def)

lemma readFromSerial_LF: "readFromSerial buffer pos (Some LF) = (pos, buffer, 0)"
  by (simp add: readFromSerial_def Serial_read_def LF_def)

lemma readFromSerial_other:
  assumes "c \<noteq> NUL" "c \<noteq> CR" "c \<noteq> LF"
  shows "readFromSerial buffer pos (Some c) =
    (if pos < BUFFER_SIZE - 1 then (0, (buffer[pos := c])[Suc pos := NUL], Suc pos)
     else (0, buffer, pos))"
proof -
  have "(of_char c :: nat) \<noteq> 0"
    using assms(1) by (simp add: of_char_nat_eq_0_iff)
  then have pos: "0 < Serial_read (Some c)"
    by (simp add: Serial_read_def)
  have n13: "Serial_read (Some c) \<noteq> 13"
    using assms(2) of_char_nat_eq_13_iff [of c] by (simp add: Serial_read_def)
  have n10: "Serial_read (Some c) \<noteq> 10"
    using assms(3) of_char_nat_eq_10_iff [of c] by (simp add: Serial_read_def)
  show ?thesis
    unfolding readFromSerial_def Let_def
    using pos n13 n10 by (simp add: char_of_Serial_read)
qed

subsection \<open>NUL bytes\<close>

text \<open>
  C10. A call of the parser whose incoming byte is 0 (NUL) behaves exactly as a call with
  no byte available: it returns 0 and leaves the array and the position as they were.
\<close>

theorem C10_nul_byte_is_no_byte:
  "readFromSerial buffer pos (Some NUL) = readFromSerial buffer pos None
   \<and> readFromSerial buffer pos (Some NUL) = (0, buffer, pos)"
  by (simp add: readFromSerial_NUL readFromSerial_None)


subsection \<open>Decimal text: \<^verbatim>\<open>atol\<close> and \<^verbatim>\<open>%i\<close>\<close>

text \<open>
  \<^verbatim>\<open>long\<close> is 32 bits on the ESP8266. \<^verbatim>\<open>atol\<close> is the C library's: it skips white space,
  takes an optional sign and then the longest run of decimal digits, stopping at the first
  other byte (the terminating NUL included); with no digits the result is 0. A value out
  of range is clamped to \<^verbatim>\<open>LONG_MAX\<close> or \<^verbatim>\<open>LONG_MIN\<close>, as \<^verbatim>\<open>strtol\<close> does.
\<close>

definition LONG_MAX :: int where "LONG_MAX = 2147483647"
definition LONG_MIN :: int where "LONG_MIN = - 2147483648"

definition isspace :: "char \<Rightarrow> bool" where
  "isspace c = (c = CHR 0x20 \<or> c = CHR 0x09 \<or> c = CHR 0x0A \<or> c = CHR 0x0B
                \<or> c = CHR 0x0C \<or> c = CHR 0x0D)"

definition isdigit :: "char \<Rightarrow> bool" where
  "isdigit c = (48 \<le> (of_char c :: nat) \<and> (of_char c :: nat) \<le> 57)"

fun strtol_digits :: "nat \<Rightarrow> string \<Rightarrow> nat" where
  "strtol_digits acc [] = acc"
| "strtol_digits acc (c # cs) =
     (if isdigit c then strtol_digits (acc * 10 + (of_char c - 48)) cs else acc)"

definition strtol10 :: "string \<Rightarrow> int" where
  "strtol10 s =
     (case dropWhile isspace s of
        [] \<Rightarrow> 0
      | c # cs \<Rightarrow>
          if c = CHR ''-'' then max LONG_MIN (- int (strtol_digits 0 cs))
          else if c = CHR ''+'' then min LONG_MAX (int (strtol_digits 0 cs))
          else min LONG_MAX (int (strtol_digits 0 (c # cs))))"

definition atol :: "string \<Rightarrow> 32 word" where
  "atol s = word_of_int (strtol10 s)"

text \<open>\<^verbatim>\<open>%i\<close> of \<^verbatim>\<open>sprintf\<close>: the decimal digits of a signed value, \<open>-\<close> first when negative.\<close>

fun dec_nat :: "nat \<Rightarrow> string" where
  "dec_nat n =
     (if n < 10 then [char_of (48 + n)] else dec_nat (n div 10) @ [char_of (48 + n mod 10)])"

declare dec_nat.simps [simp del]

definition dec_int :: "int \<Rightarrow> string" where
  "dec_int i = (if i < 0 then CHR ''-'' # dec_nat (nat (- i)) else dec_nat (nat i))"

subsection \<open>The network as the sketch sees it\<close>

text \<open>
  The WiFi library is not part of the sketch; it is modelled by the interface the sketch
  uses. A TCP connection has the bytes received and not yet read, the bytes the sketch has
  written, whether \<^verbatim>\<open>connected()\<close> holds, and whether the sketch has closed it with
  \<^verbatim>\<open>stop()\<close>. Connections live in a store indexed by a number the stack hands out; a
  \<^verbatim>\<open>WiFiClient\<close> object is a reference into the store or empty (\<^verbatim>\<open>operator bool\<close> is
  false), and \<^verbatim>\<open>stop()\<close> empties the object it is called on.
\<close>

record conn =
  alive :: bool
  rx :: string
  tx :: string
  stopped :: bool

type_synonym WiFiClient = "nat option"

type_synonym IPAddress = "nat \<times> nat \<times> nat \<times> nat"

datatype wl_status =
  WL_NO_SHIELD | WL_IDLE_STATUS | WL_NO_SSID_AVAIL | WL_SCAN_COMPLETED | WL_CONNECTED
  | WL_CONNECT_FAILED | WL_CONNECTION_LOST | WL_DISCONNECTED

datatype wifi_mode = WIFI_OFF | WIFI_STA | WIFI_AP

record wifi =
  wmode :: wifi_mode
  begin_calls :: "(string \<times> string) list"
  softAPConfig :: "(IPAddress \<times> IPAddress \<times> IPAddress) option"
  softAP :: "(string \<times> string) option"
  server_begun :: bool

text \<open>The globals of the sketch, the server's queue of connections not yet claimed, and
  the connection store.\<close>

record dsc =
  buf :: string
  pos :: nat
  Azimuth_pos :: "32 word"
  Altitude_pos :: "32 word"
  serverClients :: "WiFiClient list"
  unclaimed :: "nat list"
  conns :: "nat \<Rightarrow> conn"
  next_conn :: nat
  WiFi :: wifi

definition External_WiFi_SSID :: string where "External_WiFi_SSID = ''MyHomeWiFi''"
definition External_WiFi_Password :: string where "External_WiFi_Password = ''myPassword''"
definition WiFi_Access_Point_Name :: string where "WiFi_Access_Point_Name = ''TelescopeDSC''"
definition WiFi_Access_Point_Passw :: string where "WiFi_Access_Point_Passw = ''Fluorite''"

definition new_conn :: conn where
  "new_conn = \<lparr>alive = True, rx = [], tx = [], stopped = False\<rparr>"

text \<open>The state at power-on: globals are zero, no client object refers to a connection.\<close>

definition power_on :: dsc where
  "power_on =
     \<lparr>buf = buf_init, pos = 0, Azimuth_pos = 0, Altitude_pos = 0,
      serverClients = replicate MAX_SRV_CLIENTS None, unclaimed = [],
      conns = (\<lambda>_. new_conn), next_conn = 0,
      WiFi = \<lparr>wmode = WIFI_OFF, begin_calls = [], softAPConfig = None, softAP = None,
               server_begun = False\<rparr>\<rparr>"

subsection \<open>\<^verbatim>\<open>setup\<close>\<close>

text \<open>
  The start-up function of the sketch (here \<open>setup_dsc\<close>, as \<open>setup\<close> is a command of
  Isabelle). \<open>status\<close> is what \<^verbatim>\<open>WiFi.status()\<close> returns after the five seconds of
  \<^verbatim>\<open>delay\<close>. The lines printed on the serial port are not modelled.
\<close>

definition setup_dsc :: "wl_status \<Rightarrow> dsc \<Rightarrow> dsc" where
  "setup_dsc status s =
     (let w1 = (WiFi s)\<lparr>wmode := WIFI_STA\<rparr>;
          w2 = w1\<lparr>begin_calls :=
                 begin_calls w1 @ [(External_WiFi_SSID, External_WiFi_Password)]\<rparr>;
          w3 = (if status \<noteq> WL_CONNECTED
                then w2\<lparr>wmode := WIFI_AP,
                        softAPConfig := Some ((1, 2, 3, 4), (1, 2, 3, 1), (255, 255, 255, 0)),
                        softAP := Some (WiFi_Access_Point_Name, WiFi_Access_Point_Passw)\<rparr>
                else w2)
      in s\<lparr>WiFi := w3\<lparr>server_begun := True\<rparr>\<rparr>)"

subsection \<open>\<^verbatim>\<open>attendTcpRequests\<close>\<close>

text \<open>Operations of \<^verbatim>\<open>WiFiClient\<close> on the connection the object refers to.\<close>

definition conn_write :: "string \<Rightarrow> conn \<Rightarrow> conn" where
  "conn_write bytes c = c\<lparr>tx := tx c @ bytes\<rparr>"

text \<open>\<^verbatim>\<open>println\<close> sends the string and then carriage return and line feed.\<close>

definition conn_println :: "string \<Rightarrow> conn \<Rightarrow> conn" where
  "conn_println str c = conn_write (str @ [CR, LF]) c"

definition conn_stop :: "conn \<Rightarrow> conn" where
  "conn_stop c = c\<lparr>stopped := True\<rparr>"

definition connected :: "dsc \<Rightarrow> WiFiClient \<Rightarrow> bool" where
  "connected s c = (case c of None \<Rightarrow> False | Some k \<Rightarrow> alive (conns s k))"

definition conn_upd :: "nat \<Rightarrow> (conn \<Rightarrow> conn) \<Rightarrow> dsc \<Rightarrow> dsc" where
  "conn_upd k f s = s\<lparr>conns := (conns s)(k := f (conns s k))\<rparr>"

text \<open>\<^verbatim>\<open>stop()\<close> on a client object closes the connection it refers to, if any.\<close>

definition client_stop :: "WiFiClient \<Rightarrow> dsc \<Rightarrow> dsc" where
  "client_stop c s = (case c of None \<Rightarrow> s | Some k \<Rightarrow> conn_upd k conn_stop s)"

text \<open>\<^verbatim>\<open>server.available()\<close> hands out the oldest unclaimed connection, or an empty
  client object.\<close>

definition server_available :: "dsc \<Rightarrow> WiFiClient \<times> dsc" where
  "server_available s =
     (case unclaimed s of [] \<Rightarrow> (None, s) | k # ks \<Rightarrow> (Some k, s\<lparr>unclaimed := ks\<rparr>))"

text \<open>
  The body of the \<^verbatim>\<open>if\<close> in the first \<^verbatim>\<open>for\<close> loop: a stale client object in slot
  \<open>i\<close> is stopped, then the slot takes what \<^verbatim>\<open>server.available()\<close> returns.
\<close>

definition claim_slot :: "dsc \<Rightarrow> nat \<Rightarrow> dsc" where
  "claim_slot s i =
     (let s1 = (if serverClients s ! i \<noteq> None
                then (client_stop (serverClients s ! i) s)
                       \<lparr>serverClients := (serverClients s)[i := None]\<rparr>
                else s)
      in case server_available s1 of
           (c, s2) \<Rightarrow> s2\<lparr>serverClients := (serverClients s2)[i := c]\<rparr>)"

text \<open>
  The first \<^verbatim>\<open>for\<close> loop, from index \<open>i\<close> on: it returns the state and the value of \<open>i\<close>
  with which the loop is left (\<^verbatim>\<open>MAX_SRV_CLIENTS\<close> when no \<^verbatim>\<open>break\<close> was taken).
\<close>

function accept_scan :: "dsc \<Rightarrow> nat \<Rightarrow> dsc \<times> nat" where
  "accept_scan s i =
     (if i < MAX_SRV_CLIENTS then
        (if serverClients s ! i = None \<or> \<not> connected s (serverClients s ! i)
         then (claim_slot s i, i)
         else accept_scan s (Suc i))
      else (s, i))"
  by pat_completeness auto
termination
  by (relation "measure (\<lambda>(s, i). MAX_SRV_CLIENTS - i)") auto

declare accept_scan.simps [simp del]

definition accept_clients :: "dsc \<Rightarrow> dsc" where
  "accept_clients s =
     (if unclaimed s \<noteq> [] then
        (case accept_scan s 0 of
           (s1, i) \<Rightarrow>
             if i = MAX_SRV_CLIENTS
             then (case server_available s1 of (serverClient, s2) \<Rightarrow> client_stop serverClient s2)
             else s1)
      else s)"

text \<open>The response buffer after \<^verbatim>\<open>sprintf(response, "%i\t%i\t\n", Azimuth_pos, Altitude_pos)\<close>
  and after \<^verbatim>\<open>snprintf(response, 20, "%u-%u", ...)\<close>, as C strings.\<close>

definition sprintf_Q :: "32 word \<Rightarrow> 32 word \<Rightarrow> string" where
  "sprintf_Q az alt = dec_int (sint az) @ [TAB] @ dec_int (sint alt) @ [TAB, LF]"

definition snprintf_H :: string where
  "snprintf_H = take 19 (dec_nat AZIMUTH_TOTAL_STEPS @ ''-'' @ dec_nat ALTITUDE_TOTAL_STEPS)"

text \<open>
  What the second \<^verbatim>\<open>for\<close> loop does with a connected client: if a byte is available it
  is read and the \<^verbatim>\<open>switch\<close> answers on the same connection. The second component
  tells whether \<^verbatim>\<open>stop()\<close> was called on the client object. \<^verbatim>\<open>write(contentSize)\<close> with
  an \<^verbatim>\<open>int\<close> argument is \<^verbatim>\<open>write(uint8_t)\<close>: it sends one byte with that value.
\<close>

definition attend_client :: "32 word \<Rightarrow> 32 word \<Rightarrow> conn \<Rightarrow> conn \<times> bool" where
  "attend_client az alt c =
     (case rx c of
        [] \<Rightarrow> (c, False)
      | character # rest \<Rightarrow>
          (let c1 = c\<lparr>rx := rest\<rparr> in
           if character = CHR ''Q'' then (conn_println (sprintf_Q az alt) c1, False)
           else if character = CHR ''H'' then (conn_println snprintf_H c1, False)
           else if character = CHR ''G'' then
             (let response = sprintf_Q az alt;
                  contentSize = int (length response);
                  c2 = conn_write
                         (''HTTP/1.1 200 OK'' @ [CR, LF] @ ''Content-type: text/plain''
                            @ [CR, LF] @ ''Content-length:'') c1;
                  c3 = conn_write [char_of contentSize] c2;
                  c4 = conn_write [CR, LF, CR, LF] c3;
                  c5 = conn_println response c4;
                  c6 = c5\<lparr>rx := []\<rparr>
              in (conn_stop c6, True))
           else (c1, False)))"

text \<open>The body of the second \<^verbatim>\<open>for\<close> loop, for slot \<open>i\<close>.\<close>

definition dispatch_one :: "dsc \<Rightarrow> nat \<Rightarrow> dsc" where
  "dispatch_one s i =
     (case serverClients s ! i of
        None \<Rightarrow> s
      | Some k \<Rightarrow>
          if alive (conns s k) then
            (case attend_client (Azimuth_pos s) (Altitude_pos s) (conns s k) of
               (c, stop) \<Rightarrow>
                 s\<lparr>conns := (conns s)(k := c),
                   serverClients :=
                     (if stop then (serverClients s)[i := None] else serverClients s)\<rparr>)
          else s)"

definition attendTcpRequests :: "dsc \<Rightarrow> dsc" where
  "attendTcpRequests s = foldl dispatch_one (accept_clients s) [0..<MAX_SRV_CLIENTS]"

subsection \<open>\<^verbatim>\<open>loop\<close> and the life of the process\<close>

text \<open>One pass of \<^verbatim>\<open>loop\<close>: \<open>r\<close> is what the UART holds, \<open>enc\<close> what
  \<^verbatim>\<open>AltitudeEncoder.read()\<close> returns.\<close>

definition loop :: "char option \<Rightarrow> 32 word \<Rightarrow> dsc \<Rightarrow> dsc" where
  "loop r enc s =
     (case readFromSerial (buf s) (pos s) r of
        (n, b, p) \<Rightarrow>
          (let s1 = s\<lparr>buf := b, pos := p\<rparr>;
               s2 = (if n > 0 then s1\<lparr>Azimuth_pos := atol (buf s1)\<rparr> else s1);
               s3 = s2\<lparr>Altitude_pos := enc\<rparr>
           in attendTcpRequests s3))"

text \<open>
  Between two passes the outside world acts: a peer connects (the stack queues a new
  connection for the server), a peer closes its connection, or a peer sends bytes.
\<close>

datatype event =
  Pass "char option" "32 word"
  | PeerConnect
  | PeerClose nat
  | PeerSend nat string

fun step :: "dsc \<Rightarrow> event \<Rightarrow> dsc" where
  "step s (Pass r enc) = loop r enc s"
| "step s PeerConnect =
     s\<lparr>unclaimed := unclaimed s @ [next_conn s],
       conns := (conns s)(next_conn s := new_conn),
       next_conn := Suc (next_conn s)\<rparr>"
| "step s (PeerClose k) = conn_upd k (\<lambda>x. x\<lparr>alive := False\<rparr>) s"
| "step s (PeerSend k bytes) =
     (if alive (conns s k) \<and> \<not> stopped (conns s k)
      then conn_upd k (\<lambda>x. x\<lparr>rx := rx x @ bytes\<rparr>) s else s)"

text \<open>The Arduino core calls \<^verbatim>\<open>setup\<close> once and then \<^verbatim>\<open>loop\<close> for ever.\<close>

definition run :: "wl_status \<Rightarrow> event list \<Rightarrow> dsc" where
  "run status evs = foldl step (setup_dsc status power_on) evs"

subsection \<open>What the TCP server leaves alone\<close>

text \<open>The globals that only \<^verbatim>\<open>loop\<close> and the start-up write.\<close>

definition globals :: "dsc \<Rightarrow> string \<times> nat \<times> 32 word \<times> 32 word \<times> wifi" where
  "globals s = (buf s, pos s, Azimuth_pos s, Altitude_pos s, WiFi s)"

lemma globals_conn_upd [simp]: "globals (conn_upd k f s) = globals s"
  by (simp add: globals_def conn_upd_def)

lemma globals_serverClients_update [simp]: "globals (s\<lparr>serverClients := cs\<rparr>) = globals s"
  by (simp add: globals_def)

lemma globals_client_stop [simp]: "globals (client_stop c s) = globals s"
  by (cases c) (simp_all add: client_stop_def)

lemma globals_server_available [simp]: "globals (snd (server_available s)) = globals s"
  by (cases "unclaimed s") (simp_all add: server_available_def globals_def)

lemma globals_claim_slot [simp]: "globals (claim_slot s i) = globals s"
  unfolding claim_slot_def Let_def by (simp add: case_prod_beta)

lemma accept_scan_done: "\<not> i < MAX_SRV_CLIENTS \<Longrightarrow> accept_scan s i = (s, i)"
  by (subst accept_scan.simps) simp

lemma accept_scan_skip:
  "i < MAX_SRV_CLIENTS \<Longrightarrow> connected s (serverClients s ! i)
   \<Longrightarrow> accept_scan s i = accept_scan s (Suc i)"
  by (subst accept_scan.simps) (auto simp: connected_def)

lemma accept_scan_claim:
  "i < MAX_SRV_CLIENTS \<Longrightarrow> \<not> connected s (serverClients s ! i)
   \<Longrightarrow> accept_scan s i = (claim_slot s i, i)"
  by (subst accept_scan.simps) (auto simp: connected_def)

lemma globals_accept_scan [simp]: "globals (fst (accept_scan s i)) = globals s"
proof (induction s i rule: accept_scan.induct)
  case (1 s i)
  show ?case
  proof (cases "i < MAX_SRV_CLIENTS")
    case False
    then show ?thesis by (simp add: accept_scan_done)
  next
    case True
    show ?thesis
    proof (cases "connected s (serverClients s ! i)")
      case c: True
      then have "serverClients s ! i \<noteq> None"
        by (auto simp: connected_def split: option.splits)
      with True c 1 show ?thesis by (simp add: accept_scan_skip)
    next
      case False
      with True show ?thesis by (simp add: accept_scan_claim)
    qed
  qed
qed

lemma globals_accept_clients [simp]: "globals (accept_clients s) = globals s"
proof -
  have a: "globals (fst (accept_scan s 0)) = globals s" by simp
  show ?thesis
    unfolding accept_clients_def using a
    by (auto simp: case_prod_beta simp del: globals_accept_scan)
qed

lemma globals_dispatch_one [simp]: "globals (dispatch_one s i) = globals s"
  unfolding dispatch_one_def
  by (simp add: globals_def case_prod_beta split: option.split)

lemma globals_foldl_dispatch [simp]: "globals (foldl dispatch_one s is) = globals s"
  by (induction "is" arbitrary: s) simp_all

lemma globals_attendTcpRequests [simp]: "globals (attendTcpRequests s) = globals s"
  by (simp add: attendTcpRequests_def)


lemma globals_loop:
  "globals (loop r enc s) =
     (case readFromSerial (buf s) (pos s) r of
        (n, b, p) \<Rightarrow> (b, p, if n > 0 then atol b else Azimuth_pos s, enc, WiFi s))"
proof -
  obtain n b p where rd: "readFromSerial (buf s) (pos s) r = (n, b, p)"
    by (cases "readFromSerial (buf s) (pos s) r") auto
  have "globals (loop r enc s) =
      globals ((if n > 0 then (s\<lparr>buf := b, pos := p\<rparr>)\<lparr>Azimuth_pos := atol b\<rparr>
                else s\<lparr>buf := b, pos := p\<rparr>)\<lparr>Altitude_pos := enc\<rparr>)"
    by (simp add: loop_def rd Let_def)
  also have "\<dots> = (b, p, if n > 0 then atol b else Azimuth_pos s, enc, WiFi s)"
    by (simp add: globals_def)
  finally show ?thesis by (simp add: rd)
qed

subsection \<open>Lines through the parser\<close>

text \<open>The bytes of a sequence of UART observations that the parser does not skip.\<close>

definition payload :: "char option list \<Rightarrow> string" where
  "payload rs = filter (\<lambda>c. c \<noteq> NUL \<and> c \<noteq> CR) (concat (map (\<lambda>r. case r of None \<Rightarrow> [] | Some c \<Rightarrow> [c]) rs))"

lemma payload_Nil [simp]: "payload [] = []"
  by (simp add: payload_def)

lemma payload_Cons:
  "payload (r # rs) =
     (case r of None \<Rightarrow> payload rs
      | Some c \<Rightarrow> if c \<noteq> NUL \<and> c \<noteq> CR then c # payload rs else payload rs)"
  by (simp add: payload_def split: option.split)

lemma readFromSerial_length:
  "readFromSerial buffer p r = (n, b, p') \<Longrightarrow> length b = length buffer"
  by (auto simp: readFromSerial_def Let_def split: if_splits)

lemma readFromSerial_pos_bound:
  "readFromSerial buffer p r = (n, b, p') \<Longrightarrow> p < BUFFER_SIZE \<Longrightarrow> p' < BUFFER_SIZE"
  by (auto simp: readFromSerial_def Let_def BUFFER_SIZE_def split: if_splits)

lemma feed_invariant:
  "feed buffer p rs = (ns, b, p') \<Longrightarrow> length buffer = BUFFER_SIZE \<Longrightarrow> p < BUFFER_SIZE
   \<Longrightarrow> length b = BUFFER_SIZE \<and> p' < BUFFER_SIZE"
proof (induction rs arbitrary: buffer p ns)
  case Nil
  then show ?case by simp
next
  case (Cons r rs)
  obtain n1 b1 p1 where rd: "readFromSerial buffer p r = (n1, b1, p1)"
    by (cases "readFromSerial buffer p r") auto
  obtain ns2 where fd: "feed b1 p1 rs = (ns2, b, p')"
    using Cons.prems(1) rd by (auto split: prod.splits)
  have "length b1 = BUFFER_SIZE" "p1 < BUFFER_SIZE"
    using rd Cons.prems readFromSerial_length readFromSerial_pos_bound by auto
  with Cons.IH [OF fd] show ?case by simp
qed

lemma feed_append:
  "feed buffer p (rs @ rs') =
     (case feed buffer p rs of
        (ns, b, p1) \<Rightarrow> (case feed b p1 rs' of (ns', b', p') \<Rightarrow> (ns @ ns', b', p')))"
  by (induction rs arbitrary: buffer p) (auto split: prod.splits)

text \<open>A run of bytes without line feed, from any position.\<close>

definition line_end :: "nat \<Rightarrow> char option list \<Rightarrow> nat" where
  "line_end p rs = min (p + length (payload rs)) (BUFFER_SIZE - 1)"

definition line_fed :: "string \<Rightarrow> nat \<Rightarrow> char option list \<Rightarrow> string \<Rightarrow> bool" where
  "line_fed buffer p rs b \<longleftrightarrow>
     feed buffer p rs = (replicate (length rs) 0, b, line_end p rs)
     \<and> length b = BUFFER_SIZE
     \<and> take (line_end p rs) b = take (BUFFER_SIZE - 1) (take p buffer @ payload rs)
     \<and> (0 < line_end p rs \<longrightarrow> b ! line_end p rs = NUL)
     \<and> (payload rs = [] \<longrightarrow> b = buffer)"

lemma feed_no_LF:
  assumes "Some LF \<notin> set rs" "length buffer = BUFFER_SIZE" "p < BUFFER_SIZE"
    "0 < p \<longrightarrow> buffer ! p = NUL"
  shows "\<exists>b. line_fed buffer p rs b"
  using assms
proof (induction rs arbitrary: buffer p)
  case Nil
  then have "line_end p [] = p" by (simp add: line_end_def)
  with Nil have "line_fed buffer p [] buffer" by (simp add: line_fed_def)
  then show ?case ..
next
  case (Cons r rs)
  have noLF: "Some LF \<notin> set rs" and rLF: "r \<noteq> Some LF" using Cons.prems(1) by auto
  consider (skip) "r = None \<or> r = Some NUL \<or> r = Some CR"
    | (store) c where "r = Some c" "c \<noteq> NUL" "c \<noteq> CR" "c \<noteq> LF" "p < BUFFER_SIZE - 1"
    | (full) c where "r = Some c" "c \<noteq> NUL" "c \<noteq> CR" "c \<noteq> LF" "\<not> p < BUFFER_SIZE - 1"
    using rLF by (cases r) auto
  then show ?case
  proof cases
    case skip
    then have rd: "readFromSerial buffer p r = (0, buffer, p)"
      by (auto simp: readFromSerial_None readFromSerial_NUL readFromSerial_CR)
    have pl: "payload (r # rs) = payload rs"
      using skip by (auto simp: payload_Cons)
    from Cons.IH [OF noLF Cons.prems(2,3,4)] obtain b where "line_fed buffer p rs b" ..
    then have "line_fed buffer p (r # rs) b"
      by (simp add: line_fed_def line_end_def rd pl)
    then show ?thesis ..
  next
    case store
    define b1 where "b1 = (buffer[p := c])[Suc p := NUL]"
    have rd: "readFromSerial buffer p r = (0, b1, Suc p)"
      using store by (simp add: readFromSerial_other b1_def)
    have pl: "payload (r # rs) = c # payload rs"
      using store by (simp add: payload_Cons)
    have l1: "length b1 = BUFFER_SIZE" using Cons.prems(2) by (simp add: b1_def)
    have p1: "Suc p < BUFFER_SIZE" using store(5) by simp
    have tk: "take (Suc p) b1 = take p buffer @ [c]"
      using Cons.prems(2,3) by (simp add: b1_def take_Suc_conv_app_nth)
    have nul: "0 < Suc p \<longrightarrow> b1 ! Suc p = NUL" using l1 p1 by (simp add: b1_def)
    have le: "line_end p (r # rs) = line_end (Suc p) rs"
      by (simp add: line_end_def pl)
    from Cons.IH [OF noLF l1 p1 nul] obtain b where "line_fed b1 (Suc p) rs b" ..
    then have "line_fed buffer p (r # rs) b"
      unfolding line_fed_def le by (simp add: rd pl tk)
    then show ?thesis ..
  next
    case full
    then have rd: "readFromSerial buffer p r = (0, buffer, p)"
      by (simp add: readFromSerial_other)
    have pl: "payload (r # rs) = c # payload rs"
      using full by (simp add: payload_Cons)
    have pe: "p = BUFFER_SIZE - 1" using full(5) Cons.prems(3) by simp
    have len: "length (take p buffer) = BUFFER_SIZE - 1"
      using pe Cons.prems(2) by simp
    have le: "line_end p (r # rs) = line_end p rs"
      using pe by (simp add: line_end_def)
    have tk: "take (BUFFER_SIZE - 1) (take p buffer @ payload (r # rs)) =
              take (BUFFER_SIZE - 1) (take p buffer @ payload rs)"
      using len by simp
    from Cons.IH [OF noLF Cons.prems(2,3,4)] obtain b where "line_fed buffer p rs b" ..
    then have "line_fed buffer p (r # rs) b"
      unfolding line_fed_def le tk by (simp add: rd pl)
    then show ?thesis ..
  qed
qed


lemma line_fed_cstring:
  assumes "line_fed buffer 0 rs b" "payload rs \<noteq> []"
  shows "\<exists>ys. b = take (BUFFER_SIZE - 1) (payload rs) @ NUL # ys"
proof -
  let ?e = "line_end 0 rs"
  have e: "0 < ?e" "?e < length b"
    using assms by (auto simp: line_fed_def line_end_def BUFFER_SIZE_def)
  have "b = take ?e b @ b ! ?e # drop (Suc ?e) b"
    using e(2) by (rule id_take_nth_drop)
  moreover have "take ?e b = take (BUFFER_SIZE - 1) (payload rs)" "b ! ?e = NUL"
    using assms(1) e(1) by (simp_all add: line_fed_def)
  ultimately show ?thesis by metis
qed

subsection \<open>atol reads a C string\<close>

lemma not_isdigit_NUL: "\<not> isdigit NUL"
  by (simp add: isdigit_def NUL_def)

lemma not_isspace_NUL: "\<not> isspace NUL"
  by (simp add: isspace_def NUL_def)

lemma NUL_not_sign: "NUL \<noteq> CHR ''-''" "NUL \<noteq> CHR ''+''"
  by (simp_all add: NUL_def)

lemma strtol_digits_cstring: "strtol_digits acc (xs @ NUL # ys) = strtol_digits acc xs"
  by (induction xs arbitrary: acc) (simp_all add: not_isdigit_NUL)

lemma dropWhile_isspace_cstring:
  "dropWhile isspace (xs @ NUL # ys) = dropWhile isspace xs @ NUL # ys"
  by (induction xs) (simp_all add: not_isspace_NUL)

lemma strtol10_cstring: "strtol10 (xs @ NUL # ys) = strtol10 xs"
proof (cases "dropWhile isspace xs")
  case Nil
  show ?thesis
    unfolding strtol10_def dropWhile_isspace_cstring Nil
    by (simp add: not_isdigit_NUL NUL_not_sign LONG_MAX_def)
next
  case (Cons c cs)
  then show ?thesis
    using strtol_digits_cstring [of 0 "c # cs" ys] strtol_digits_cstring [of 0 cs ys]
    by (simp add: strtol10_def dropWhile_isspace_cstring del: strtol_digits.simps)
qed

lemma atol_cstring: "atol (xs @ NUL # ys) = atol xs"
  by (simp add: atol_def strtol10_cstring)

text \<open>The number a string of decimal digits denotes.\<close>

definition decimal_value :: "string \<Rightarrow> nat" where
  "decimal_value ds = foldl (\<lambda>a c. 10 * a + (of_char c - 48)) 0 ds"

lemma strtol_digits_foldl:
  "list_all isdigit ds \<Longrightarrow>
     strtol_digits acc ds = foldl (\<lambda>a c. 10 * a + (of_char c - 48)) acc ds"
  by (induction ds arbitrary: acc) (simp_all add: mult.commute)

lemma isdigit_not_special:
  "isdigit c \<Longrightarrow> \<not> isspace c \<and> c \<noteq> CHR ''-'' \<and> c \<noteq> CHR ''+'' \<and> c \<noteq> NUL \<and> c \<noteq> CR \<and> c \<noteq> LF"
  by (auto simp: isdigit_def isspace_def NUL_def CR_def LF_def)

lemma strtol10_digits:
  assumes "list_all isdigit ds"
  shows "strtol10 ds = min LONG_MAX (int (decimal_value ds))"
proof (cases ds)
  case Nil
  then show ?thesis by (simp add: strtol10_def decimal_value_def LONG_MAX_def)
next
  case (Cons c cs)
  then have c: "isdigit c" using assms by simp
  have "dropWhile isspace ds = ds"
    using Cons c isdigit_not_special by simp
  then show ?thesis
    using Cons c isdigit_not_special [OF c] strtol_digits_foldl [OF assms, of 0]
    by (simp add: strtol10_def decimal_value_def del: strtol_digits.simps)
qed

lemma sint_word_of_int_32:
  "- 2147483648 \<le> k \<Longrightarrow> k \<le> 2147483647 \<Longrightarrow> sint (word_of_int k :: 32 word) = k"
  by (simp add: sint_sbintrunc' signed_take_bit_int_eq_self)

lemma sint_atol_digits:
  assumes "list_all isdigit ds" "int (decimal_value ds) \<le> LONG_MAX"
  shows "sint (atol ds) = int (decimal_value ds)"
proof -
  have "strtol10 ds = int (decimal_value ds)"
    using assms by (simp add: strtol10_digits)
  moreover have "sint (word_of_int (int (decimal_value ds)) :: 32 word) = int (decimal_value ds)"
    using assms(2) by (intro sint_word_of_int_32) (simp_all add: LONG_MAX_def)
  ultimately show ?thesis by (simp only: atol_def)
qed

lemma buf_init_length: "length buf_init = BUFFER_SIZE"
  by (simp add: buf_init_def)

lemma BUFFER_SIZE_pos: "0 < BUFFER_SIZE"
  by (simp add: BUFFER_SIZE_def)

lemma feed_line:
  assumes "Some LF \<notin> set rs" "length buffer = BUFFER_SIZE"
  shows "\<exists>b. feed buffer 0 (rs @ [Some LF]) = (replicate (length rs) 0 @ [line_end 0 rs], b, 0)
             \<and> line_fed buffer 0 rs b"
proof -
  from feed_no_LF [OF assms BUFFER_SIZE_pos] obtain b where b: "line_fed buffer 0 rs b"
    by auto
  then have "feed buffer 0 rs = (replicate (length rs) 0, b, line_end 0 rs)"
    by (simp add: line_fed_def)
  then have "feed buffer 0 (rs @ [Some LF]) = (replicate (length rs) 0 @ [line_end 0 rs], b, 0)"
    by (simp add: feed_append readFromSerial_LF)
  with b show ?thesis by blast
qed

lemma atol_line:
  assumes "line_fed buffer 0 rs b" "payload rs \<noteq> []"
  shows "atol b = atol (take (BUFFER_SIZE - 1) (payload rs))"
proof -
  from line_fed_cstring [OF assms] obtain ys where
    "b = take (BUFFER_SIZE - 1) (payload rs) @ NUL # ys" ..
  then show ?thesis by (metis atol_cstring)
qed

lemma atol_buf_init: "atol buf_init = 0"
proof -
  have "buf_init = [] @ NUL # replicate 79 NUL"
    by (simp add: buf_init_def BUFFER_SIZE_def replicate_Suc [symmetric] del: replicate_Suc)
  then have "atol buf_init = atol []"
    using atol_cstring [of "[]" "replicate 79 NUL"] by simp
  then show ?thesis by (simp add: atol_def strtol10_def)
qed

lemma readFromSerial_step:
  assumes "readFromSerial b0 p0 r = (n, b1, p1)"
  shows "(r = Some LF \<longrightarrow> p1 = 0 \<and> n = p0 \<and> b1 = b0)
       \<and> (r \<noteq> Some LF \<longrightarrow> p0 \<le> p1 \<and> n = 0)
       \<and> (\<not> p0 < BUFFER_SIZE - 1 \<and> r \<noteq> Some LF \<longrightarrow> b1 = b0 \<and> p1 = p0)"
proof (cases "r = Some LF")
  case True
  with assms show ?thesis by (simp add: readFromSerial_LF)
next
  case False
  consider "r = None \<or> r = Some NUL \<or> r = Some CR"
    | c where "r = Some c" "c \<noteq> NUL" "c \<noteq> CR" "c \<noteq> LF"
    using False by (cases r) auto
  then show ?thesis
  proof cases
    case 1
    with assms False show ?thesis
      by (auto simp: readFromSerial_None readFromSerial_NUL readFromSerial_CR)
  next
    case 2
    with assms False show ?thesis
      by (auto simp: readFromSerial_other split: if_splits)
  qed
qed

subsection \<open>The line buffer stays within its capacity\<close>

text \<open>
  C3. Whatever sequence of bytes (and idle polls) has been fed to the parser since
  power-on, the array keeps its \<^verbatim>\<open>BUFFER_SIZE\<close> bytes and the position stays below
  \<^verbatim>\<open>BUFFER_SIZE\<close>. At the next call the position becomes 0 if the byte is a line feed
  (the old position is returned) and does not decrease otherwise; when the position is
  \<^verbatim>\<open>BUFFER_SIZE - 1\<close> a byte other than line feed changes nothing. A line that starts
  at position 0 is completed with the first \<^verbatim>\<open>BUFFER_SIZE - 1\<close> of its bytes (carriage
  returns and NULs not counted) at the front of the array: a truncated prefix of the input.
\<close>

theorem C3_line_buffer_bounded:
  assumes "feed buf_init 0 pre = (ns0, b0, p0)"
  shows "length b0 = BUFFER_SIZE \<and> p0 < BUFFER_SIZE
    \<and> (\<forall>r n b1 p1. readFromSerial b0 p0 r = (n, b1, p1) \<longrightarrow>
          length b1 = BUFFER_SIZE \<and> p1 < BUFFER_SIZE
          \<and> (r = Some LF \<longrightarrow> p1 = 0 \<and> n = p0 \<and> b1 = b0)
          \<and> (r \<noteq> Some LF \<longrightarrow> p0 \<le> p1 \<and> n = 0)
          \<and> (p0 = BUFFER_SIZE - 1 \<and> r \<noteq> Some LF \<longrightarrow> b1 = b0 \<and> p1 = p0))
    \<and> (\<forall>line. p0 = 0 \<and> Some LF \<notin> set line \<longrightarrow>
          (\<exists>b. feed b0 0 (line @ [Some LF]) =
                  (replicate (length line) 0 @ [min (length (payload line)) (BUFFER_SIZE - 1)],
                   b, 0)
              \<and> length b = BUFFER_SIZE
              \<and> take (min (length (payload line)) (BUFFER_SIZE - 1)) b =
                  take (BUFFER_SIZE - 1) (payload line)))"
proof -
  have inv: "length b0 = BUFFER_SIZE \<and> p0 < BUFFER_SIZE"
    using feed_invariant [OF assms buf_init_length BUFFER_SIZE_pos] .
  have stp: "length b1 = BUFFER_SIZE \<and> p1 < BUFFER_SIZE
          \<and> (r = Some LF \<longrightarrow> p1 = 0 \<and> n = p0 \<and> b1 = b0)
          \<and> (r \<noteq> Some LF \<longrightarrow> p0 \<le> p1 \<and> n = 0)
          \<and> (p0 = BUFFER_SIZE - 1 \<and> r \<noteq> Some LF \<longrightarrow> b1 = b0 \<and> p1 = p0)"
    if rd: "readFromSerial b0 p0 r = (n, b1, p1)" for r n b1 p1
    using readFromSerial_step [OF rd] readFromSerial_length [OF rd]
      readFromSerial_pos_bound [OF rd] inv by auto
  have ln: "\<exists>b. feed b0 0 (line @ [Some LF]) =
                  (replicate (length line) 0 @ [min (length (payload line)) (BUFFER_SIZE - 1)],
                   b, 0)
              \<and> length b = BUFFER_SIZE
              \<and> take (min (length (payload line)) (BUFFER_SIZE - 1)) b =
                  take (BUFFER_SIZE - 1) (payload line)"
    if "Some LF \<notin> set line" for line
  proof -
    from feed_line [OF that] inv obtain b where
      "feed b0 0 (line @ [Some LF]) = (replicate (length line) 0 @ [line_end 0 line], b, 0)"
      "line_fed b0 0 line b" by blast
    then show ?thesis by (auto simp: line_fed_def line_end_def)
  qed
  show ?thesis using inv stp ln by blast
qed

theorem C3_line_buffer_bounded_witness:
  "feed buf_init 0 [Some LF] = ([0], buf_init, 0)
   \<and> length buf_init = BUFFER_SIZE
   \<and> readFromSerial buf_init 0 (Some LF) = (0, buf_init, 0)
   \<and> (\<exists>b. feed buf_init 0 ([Some (CHR ''7''), Some CR] @ [Some LF]) = ([0, 0, 1], b, 0)
           \<and> take 1 b = ''7'')"
proof -
  have f: "feed buf_init 0 [Some LF] = ([0], buf_init, 0)"
    by (simp add: readFromSerial_LF)
  have pl: "payload [Some (CHR ''7''), Some CR] = ''7''"
    by (simp add: payload_def NUL_def CR_def)
  have nl: "Some LF \<notin> set [Some (CHR ''7''), Some CR]"
    by (simp add: LF_def CR_def)
  from C3_line_buffer_bounded [OF f] have
    "length buf_init = BUFFER_SIZE"
    "\<forall>line. (0::nat) = 0 \<and> Some LF \<notin> set line \<longrightarrow>
          (\<exists>b. feed buf_init 0 (line @ [Some LF]) =
                  (replicate (length line) 0 @ [min (length (payload line)) (BUFFER_SIZE - 1)],
                   b, 0)
              \<and> length b = BUFFER_SIZE
              \<and> take (min (length (payload line)) (BUFFER_SIZE - 1)) b =
                  take (BUFFER_SIZE - 1) (payload line))"
    by blast+
  from this(2) [rule_format, of "[Some (CHR ''7''), Some CR]"] nl obtain b where
    "feed buf_init 0 ([Some (CHR ''7''), Some CR] @ [Some LF]) =
        (replicate (length [Some (CHR ''7''), Some CR]) 0
           @ [min (length (payload [Some (CHR ''7''), Some CR])) (BUFFER_SIZE - 1)], b, 0)"
    "take (min (length (payload [Some (CHR ''7''), Some CR])) (BUFFER_SIZE - 1)) b =
                  take (BUFFER_SIZE - 1) (payload [Some (CHR ''7''), Some CR])"
    by blast
  then have "feed buf_init 0 ([Some (CHR ''7''), Some CR] @ [Some LF]) = ([0, 0, 1], b, 0)
           \<and> take 1 b = ''7''"
    unfolding pl by (simp add: BUFFER_SIZE_def del: feed.simps)
  then show ?thesis
    using f buf_init_length by (simp add: readFromSerial_LF del: feed.simps)
qed

subsection \<open>A line of digits\<close>

text \<open>
  C2 (as amended). Let the bytes fed since power-on be one line of decimal digits \<open>ds\<close>,
  fewer than \<^verbatim>\<open>BUFFER_SIZE\<close> of them, followed by a line feed (carriage returns, NULs and
  idle polls may come in between), and let the number the digits denote be at most
  \<^verbatim>\<open>LONG_MAX\<close>. Then every call before the line feed returns 0, the call at the line
  feed returns the number of digits, and \<^verbatim>\<open>atol\<close> of the array is the number the digits
  denote.
\<close>

theorem C2_digit_line_parsed:
  assumes "list_all isdigit ds" "length ds < BUFFER_SIZE" "int (decimal_value ds) \<le> LONG_MAX"
    and "Some LF \<notin> set rs" "payload rs = ds"
  shows "\<exists>b. feed buf_init 0 (rs @ [Some LF]) = (replicate (length rs) 0 @ [length ds], b, 0)
             \<and> sint (atol b) = int (decimal_value ds)"
proof -
  from feed_line [OF assms(4) buf_init_length] obtain b where b:
    "feed buf_init 0 (rs @ [Some LF]) = (replicate (length rs) 0 @ [line_end 0 rs], b, 0)"
    "line_fed buf_init 0 rs b" by blast
  have le: "line_end 0 rs = length ds"
    using assms(2,5) by (simp add: line_end_def)
  have "atol b = atol ds"
  proof (cases "ds = []")
    case True
    then have "b = buf_init" using b(2) assms(5) by (simp add: line_fed_def)
    then show ?thesis using True atol_buf_init by (simp add: atol_def strtol10_def)
  next
    case False
    then have "atol b = atol (take (BUFFER_SIZE - 1) (payload rs))"
      using atol_line [OF b(2)] assms(5) by simp
    then show ?thesis using assms(2,5) by simp
  qed
  then have "sint (atol b) = int (decimal_value ds)"
    using sint_atol_digits [OF assms(1,3)] by simp
  with b(1) le show ?thesis by auto
qed

theorem C2_digit_line_parsed_witness:
  "list_all isdigit ''42'' \<and> decimal_value ''42'' = 42
   \<and> (\<exists>b. feed buf_init 0 ([Some (CHR ''4''), Some (CHR ''2''), Some CR] @ [Some LF])
             = ([0, 0, 0, 2], b, 0)
           \<and> sint (atol b) = 42)"
proof -
  have d: "list_all isdigit ''42''" by (simp add: isdigit_def)
  have v: "decimal_value ''42'' = 42" by (simp add: decimal_value_def)
  have l: "length ''42'' < BUFFER_SIZE" by (simp add: BUFFER_SIZE_def)
  have m: "int (decimal_value ''42'') \<le> LONG_MAX" by (simp add: v LONG_MAX_def)
  have n: "Some LF \<notin> set [Some (CHR ''4''), Some (CHR ''2''), Some CR]"
    by (simp add: LF_def CR_def)
  have p: "payload [Some (CHR ''4''), Some (CHR ''2''), Some CR] = ''42''"
    by (simp add: payload_def NUL_def CR_def)
  from C2_digit_line_parsed [OF d l m n p] show ?thesis
    using d v by (simp add: numeral_3_eq_3 numeral_2_eq_2 del: feed.simps)
qed

text \<open>
  Without the bound on the value the claim fails: eleven nines are a line of digits shorter
  than the array, the call at the line feed returns 11, and \<^verbatim>\<open>atol\<close> of the array is
  \<^verbatim>\<open>LONG_MAX\<close>, not the number sent.
\<close>

theorem C2_overlong_value_counterexample:
  "list_all isdigit ''99999999999'' \<and> length ''99999999999'' < BUFFER_SIZE
   \<and> last (fst (feed buf_init 0 (map Some ''99999999999'' @ [Some LF]))) = 11
   \<and> sint (atol (fst (snd (feed buf_init 0 (map Some ''99999999999'' @ [Some LF])))))
       \<noteq> int (decimal_value ''99999999999'')"
proof -
  let ?rs = "map Some ''99999999999''"
  have n: "Some LF \<notin> set ?rs" by (simp add: LF_def)
  have p: "payload ?rs = ''99999999999''" by (simp add: payload_def NUL_def CR_def)
  from feed_line [OF n buf_init_length] obtain b where b:
    "feed buf_init 0 (?rs @ [Some LF]) = (replicate (length ?rs) 0 @ [line_end 0 ?rs], b, 0)"
    "line_fed buf_init 0 ?rs b" by blast
  have le: "line_end 0 ?rs = 11"
    unfolding line_end_def p by (simp add: BUFFER_SIZE_def)
  have "payload ?rs \<noteq> []" unfolding p by simp
  from atol_line [OF b(2) this] have a: "atol b = atol ''99999999999''"
    unfolding p by (simp add: BUFFER_SIZE_def)
  have s: "sint (atol ''99999999999'') = 2147483647"
    by (simp add: atol_def strtol10_def isspace_def isdigit_def LONG_MAX_def)
  have v: "decimal_value ''99999999999'' = 99999999999" by (simp add: decimal_value_def)
  have d: "list_all isdigit ''99999999999''" by (simp add: isdigit_def)
  show ?thesis
    unfolding b(1) fst_conv snd_conv le a s v using d by (simp add: BUFFER_SIZE_def)
qed


subsection \<open>The serial side of \<^verbatim>\<open>loop\<close>\<close>

text \<open>What the UART held at the passes of a sequence of events.\<close>

fun uart :: "event list \<Rightarrow> char option list" where
  "uart [] = []"
| "uart (Pass r enc # evs) = r # uart evs"
| "uart (PeerConnect # evs) = uart evs"
| "uart (PeerClose k # evs) = uart evs"
| "uart (PeerSend k bytes # evs) = uart evs"

lemma globals_step_other:
  "ev = PeerConnect \<or> ev = PeerClose k \<or> ev = PeerSend k bytes \<Longrightarrow> globals (step s ev) = globals s"
  by (auto simp: globals_def conn_upd_def)

lemma globals_fields:
  "buf s = fst (globals s)" "pos s = fst (snd (globals s))"
  "Azimuth_pos s = fst (snd (snd (globals s)))"
  "Altitude_pos s = fst (snd (snd (snd (globals s))))"
  "WiFi s = snd (snd (snd (snd (globals s))))"
  by (simp_all add: globals_def)

lemma loop_serial:
  assumes "readFromSerial (buf s) (pos s) r = (n, b, p)"
  shows "buf (loop r enc s) = b" "pos (loop r enc s) = p"
    "Azimuth_pos (loop r enc s) = (if n > 0 then atol b else Azimuth_pos s)"
    "Altitude_pos (loop r enc s) = enc" "WiFi (loop r enc s) = WiFi s"
  unfolding globals_fields [of "loop r enc s"] globals_loop assms by simp_all

lemma step_not_Pass:
  assumes "\<And>r enc. ev \<noteq> Pass r enc"
  shows "buf (step s ev) = buf s" "pos (step s ev) = pos s"
    "Azimuth_pos (step s ev) = Azimuth_pos s" "WiFi (step s ev) = WiFi s"
  using assms by (cases ev; simp add: conn_upd_def)+

lemma feed_run:
  "feed (buf s) (pos s) (uart evs) = (ns, b, p)
   \<Longrightarrow> buf (foldl step s evs) = b \<and> pos (foldl step s evs) = p"
proof (induction evs arbitrary: s ns)
  case Nil
  then show ?case by simp
next
  case (Cons ev evs)
  show ?case
  proof (cases ev)
    case (Pass r enc)
    obtain n1 b1 p1 where rd: "readFromSerial (buf s) (pos s) r = (n1, b1, p1)"
      by (cases "readFromSerial (buf s) (pos s) r") auto
    obtain ns2 where "feed b1 p1 (uart evs) = (ns2, b, p)"
      using Cons.prems rd Pass by (auto split: prod.splits)
    then have "feed (buf (step s ev)) (pos (step s ev)) (uart evs) = (ns2, b, p)"
      using loop_serial(1,2) [OF rd] Pass by simp
    from Cons.IH [OF this] show ?thesis by simp
  next
    case PeerConnect
    then have "feed (buf (step s ev)) (pos (step s ev)) (uart evs) = (ns, b, p)"
      using Cons.prems by simp
    from Cons.IH [OF this] show ?thesis by simp
  next
    case (PeerClose k)
    then have "feed (buf (step s ev)) (pos (step s ev)) (uart evs) = (ns, b, p)"
      using Cons.prems by (simp add: conn_upd_def)
    from Cons.IH [OF this] show ?thesis by simp
  next
    case (PeerSend k bytes)
    then have "feed (buf (step s ev)) (pos (step s ev)) (uart evs) = (ns, b, p)"
      using Cons.prems by (simp add: conn_upd_def)
    from Cons.IH [OF this] show ?thesis by simp
  qed
qed

lemma run_buf_invariant:
  "length (buf (run status evs)) = BUFFER_SIZE \<and> pos (run status evs) < BUFFER_SIZE"
proof -
  let ?s = "setup_dsc status power_on"
  have i: "buf ?s = buf_init" "pos ?s = 0"
    by (simp_all add: setup_dsc_def power_on_def Let_def)
  obtain ns b p where f: "feed (buf ?s) (pos ?s) (uart evs) = (ns, b, p)"
    by (cases "feed (buf ?s) (pos ?s) (uart evs)") auto
  from feed_invariant [OF f [unfolded i] buf_init_length BUFFER_SIZE_pos] feed_run [OF f]
  show ?thesis by (simp add: run_def)
qed

lemma line_pass:
  assumes "length (buf s) = BUFFER_SIZE" "pos s = 0"
    and "Some LF \<notin> set (uart evs)" "payload (uart evs) \<noteq> []"
  shows "Azimuth_pos (foldl step s (evs @ [Pass (Some LF) enc])) =
           atol (take (BUFFER_SIZE - 1) (payload (uart evs)))
         \<and> pos (foldl step s (evs @ [Pass (Some LF) enc])) = 0
         \<and> length (buf (foldl step s (evs @ [Pass (Some LF) enc]))) = BUFFER_SIZE"
proof -
  let ?s1 = "foldl step s evs"
  from feed_no_LF [OF assms(3,1)] BUFFER_SIZE_pos obtain b where
    b: "line_fed (buf s) 0 (uart evs) b" by auto
  then have "feed (buf s) (pos s) (uart evs) = (replicate (length (uart evs)) 0, b, line_end 0 (uart evs))"
    using assms(2) by (simp add: line_fed_def)
  from feed_run [OF this] have s1: "buf ?s1 = b" "pos ?s1 = line_end 0 (uart evs)" by simp_all
  have e: "0 < line_end 0 (uart evs)"
    using assms(4) by (simp add: line_end_def BUFFER_SIZE_def)
  have rd: "readFromSerial (buf ?s1) (pos ?s1) (Some LF) = (line_end 0 (uart evs), b, 0)"
    by (simp add: readFromSerial_LF s1)
  have "Azimuth_pos (loop (Some LF) enc ?s1) = atol b"
    using loop_serial(3) [OF rd] e by simp
  moreover have "atol b = atol (take (BUFFER_SIZE - 1) (payload (uart evs)))"
    using atol_line [OF b assms(4)] .
  moreover have "length b = BUFFER_SIZE" using b by (simp add: line_fed_def)
  ultimately show ?thesis
    using loop_serial(1,2) [OF rd] by simp
qed

lemma atol_non_numeric:
  assumes "line \<noteq> []" "\<not> isdigit (hd line)" "\<not> isspace (hd line)"
    "hd line \<noteq> CHR ''-''" "hd line \<noteq> CHR ''+''"
  shows "atol line = 0"
proof -
  obtain c cs where l: "line = c # cs" using assms(1) by (cases line) auto
  with assms show ?thesis
    by (simp add: atol_def strtol10_def LONG_MAX_def)
qed

lemma uart_map_Pass: "uart (map (\<lambda>c. Pass (Some c) enc) cs) = map Some cs"
  by (induction cs) simp_all


subsection \<open>A completed line and the stored azimuth\<close>

text \<open>
  C1 (as amended). In a state the program can reach, at the start of a line, let the passes
  of \<^verbatim>\<open>loop\<close> (with any network events in between) deliver a line with at least one byte
  besides carriage returns and NULs, and then a line feed. The pass that reads the line feed
  stores \<^verbatim>\<open>atol\<close> of the first \<^verbatim>\<open>BUFFER_SIZE - 1\<close> bytes of the line in
  \<^verbatim>\<open>Azimuth_pos\<close>; when the line does not start with a digit, white space or a sign, what
  is stored is 0, whatever the value before.
\<close>

theorem C1_completed_line_overwrites:
  assumes "s = run status pre" "pos s = 0"
    and "Some LF \<notin> set (uart evs)" "payload (uart evs) = line" "line \<noteq> []"
  shows "Azimuth_pos (foldl step s (evs @ [Pass (Some LF) enc])) =
           atol (take (BUFFER_SIZE - 1) line)
         \<and> (\<not> isdigit (hd line) \<and> \<not> isspace (hd line)
              \<and> hd line \<noteq> CHR ''-'' \<and> hd line \<noteq> CHR ''+''
            \<longrightarrow> Azimuth_pos (foldl step s (evs @ [Pass (Some LF) enc])) = 0)"
proof -
  have len: "length (buf s) = BUFFER_SIZE"
    using run_buf_invariant [of status pre] assms(1) by simp
  have ne: "payload (uart evs) \<noteq> []" using assms(4,5) by simp
  from line_pass [OF len assms(2,3) ne, of enc] assms(4)
  have az: "Azimuth_pos (foldl step s (evs @ [Pass (Some LF) enc])) =
           atol (take (BUFFER_SIZE - 1) line)" by simp
  have "atol (take (BUFFER_SIZE - 1) line) = 0"
    if "\<not> isdigit (hd line) \<and> \<not> isspace (hd line)
              \<and> hd line \<noteq> CHR ''-'' \<and> hd line \<noteq> CHR ''+''"
  proof -
    have "take (BUFFER_SIZE - 1) line \<noteq> []" "hd (take (BUFFER_SIZE - 1) line) = hd line"
      using assms(5) by (simp_all add: BUFFER_SIZE_def)
    with that show ?thesis by (intro atol_non_numeric) simp_all
  qed
  with az show ?thesis by simp
qed

lemma first_line_42:
  "Azimuth_pos (run status (map (\<lambda>c. Pass (Some c) 0) ''42'' @ [Pass (Some LF) 0])) = 42
   \<and> pos (run status (map (\<lambda>c. Pass (Some c) 0) ''42'' @ [Pass (Some LF) 0])) = 0"
proof -
  let ?evs = "map (\<lambda>c. Pass (Some c) 0) ''42''"
  have u: "uart ?evs = map Some ''42''" by (rule uart_map_Pass)
  have p: "payload (uart ?evs) = ''42''"
    unfolding u by (simp add: payload_def NUL_def CR_def)
  have n: "Some LF \<notin> set (uart ?evs)" unfolding u by (simp add: LF_def)
  have ne: "payload (uart ?evs) \<noteq> []" unfolding p by simp
  have i: "length (buf (setup_dsc status power_on)) = BUFFER_SIZE" "pos (setup_dsc status power_on) = 0"
    by (simp_all add: setup_dsc_def power_on_def Let_def buf_init_length)
  have a: "atol (take (BUFFER_SIZE - 1) ''42'') = 42"
    by (simp add: BUFFER_SIZE_def atol_def strtol10_def isspace_def isdigit_def LONG_MAX_def)
  from line_pass [OF i n ne, of 0] show ?thesis
    unfolding p a run_def by simp
qed

text \<open>
  The claim as written fails: after the line \<open>42\<close> the stored azimuth is 42, and the
  malformed line \<open>x\<close> that follows replaces it by 0.
\<close>

theorem C1_malformed_line_counterexample:
  "Azimuth_pos (run WL_CONNECTED (map (\<lambda>c. Pass (Some c) 0) ''42'' @ [Pass (Some LF) 0])) = 42
   \<and> Azimuth_pos (run WL_CONNECTED ((map (\<lambda>c. Pass (Some c) 0) ''42'' @ [Pass (Some LF) 0])
         @ [Pass (Some (CHR ''x'')) 0] @ [Pass (Some LF) 0])) = 0"
proof -
  let ?pre = "map (\<lambda>c. Pass (Some c) 0) ''42'' @ [Pass (Some LF) 0]"
  let ?s = "run WL_CONNECTED ?pre"
  have len: "length (buf ?s) = BUFFER_SIZE" using run_buf_invariant by blast
  have p0: "pos ?s = 0" using first_line_42 by blast
  have n: "Some LF \<notin> set (uart [Pass (Some (CHR ''x'')) 0])" by (simp add: LF_def)
  have p: "payload (uart [Pass (Some (CHR ''x'')) 0]) = ''x''"
    by (simp add: payload_def NUL_def CR_def)
  have ne: "payload (uart [Pass (Some (CHR ''x'')) 0]) \<noteq> []" unfolding p by simp
  have a: "atol (take (BUFFER_SIZE - 1) ''x'') = 0"
    by (simp add: BUFFER_SIZE_def atol_def strtol10_def isspace_def isdigit_def LONG_MAX_def)
  have r: "foldl step ?s ([Pass (Some (CHR ''x'')) 0] @ [Pass (Some LF) 0]) =
      run WL_CONNECTED (?pre @ [Pass (Some (CHR ''x'')) 0] @ [Pass (Some LF) 0])"
    unfolding run_def foldl_append ..
  from line_pass [OF len p0 n ne, of 0]
  have "Azimuth_pos (foldl step ?s ([Pass (Some (CHR ''x'')) 0] @ [Pass (Some LF) 0])) = 0"
    unfolding p a by blast
  then show ?thesis
    unfolding r using first_line_42 [of WL_CONNECTED] by blast
qed

theorem C1_completed_line_overwrites_witness:
  "pos (run WL_CONNECTED (map (\<lambda>c. Pass (Some c) 0) ''42'' @ [Pass (Some LF) 0])) = 0
   \<and> Azimuth_pos (run WL_CONNECTED (map (\<lambda>c. Pass (Some c) 0) ''42'' @ [Pass (Some LF) 0])) = 42
   \<and> \<not> isdigit (CHR ''x'') \<and> \<not> isspace (CHR ''x'')
   \<and> Azimuth_pos (foldl step
         (run WL_CONNECTED (map (\<lambda>c. Pass (Some c) 0) ''42'' @ [Pass (Some LF) 0]))
         ([PeerConnect, Pass (Some (CHR ''x'')) 7, Pass (Some CR) 7] @ [Pass (Some LF) 8])) = 0"
proof -
  let ?pre = "map (\<lambda>c. Pass (Some c) 0) ''42'' @ [Pass (Some LF) 0]"
  let ?evs = "[PeerConnect, Pass (Some (CHR ''x'')) 7, Pass (Some CR) 7]"
  have p0: "pos (run WL_CONNECTED ?pre) = 0" using first_line_42 by blast
  have n: "Some LF \<notin> set (uart ?evs)" by (simp add: LF_def CR_def)
  have p: "payload (uart ?evs) = ''x''" by (simp add: payload_def NUL_def CR_def)
  have x: "\<not> isdigit (CHR ''x'')" "\<not> isspace (CHR ''x'')"
    by (simp_all add: isdigit_def isspace_def)
  have ne: "''x'' \<noteq> []" by simp
  have hx: "\<not> isdigit (hd ''x'') \<and> \<not> isspace (hd ''x'')
      \<and> hd ''x'' \<noteq> CHR ''-'' \<and> hd ''x'' \<noteq> CHR ''+''"
    using x by simp
  from C1_completed_line_overwrites [OF refl p0 n p ne, of 8] hx
  have "Azimuth_pos (foldl step (run WL_CONNECTED ?pre) (?evs @ [Pass (Some LF) 8])) = 0"
    by blast
  with p0 x first_line_42 [of WL_CONNECTED] show ?thesis by blast
qed

subsection \<open>The empty line\<close>

text \<open>
  C6 (as amended). A line feed that arrives while the position is 0 makes the parser return
  0 and leave array and position as they are, exactly what a call with no byte available
  does; the test \<^verbatim>\<open>readFromSerial(buf) > 0\<close> in \<^verbatim>\<open>loop\<close> then fails and the stored
  azimuth keeps its value.
\<close>

theorem C6_empty_line_not_signalled:
  "readFromSerial buffer 0 (Some LF) = (0, buffer, 0)
   \<and> readFromSerial buffer 0 (Some LF) = readFromSerial buffer 0 None
   \<and> Azimuth_pos (loop (Some LF) enc (s\<lparr>pos := 0\<rparr>)) = Azimuth_pos s"
proof -
  have rd: "readFromSerial (buf (s\<lparr>pos := 0\<rparr>)) (pos (s\<lparr>pos := 0\<rparr>)) (Some LF) = (0, buf s, 0)"
    by (simp add: readFromSerial_LF)
  show ?thesis
    using loop_serial(3) [OF rd, of enc] by (simp add: readFromSerial_LF readFromSerial_None)
qed

text \<open>
  So the caller cannot tell the empty line from no line: at power-on both calls give the
  same result, with return value 0.
\<close>

theorem C6_empty_line_counterexample:
  "readFromSerial buf_init 0 (Some LF) = readFromSerial buf_init 0 None
   \<and> fst (readFromSerial buf_init 0 (Some LF)) = 0"
  by (simp add: readFromSerial_LF readFromSerial_None)


subsection \<open>The connection pool\<close>

text \<open>
  What holds of the client array, the server's queue and the connection store in every
  state the program reaches: the array has \<^verbatim>\<open>MAX_SRV_CLIENTS\<close> slots, no connection is
  referred to by two slots or queued twice or both held and queued, and every connection
  held or queued was handed out by the stack and has not been stopped.
\<close>

definition pool_inv :: "dsc \<Rightarrow> bool" where
  "pool_inv s \<longleftrightarrow>
     length (serverClients s) = MAX_SRV_CLIENTS
     \<and> distinct (unclaimed s)
     \<and> (\<forall>i j k. i < MAX_SRV_CLIENTS \<and> j < MAX_SRV_CLIENTS
           \<and> serverClients s ! i = Some k \<and> serverClients s ! j = Some k \<longrightarrow> i = j)
     \<and> (\<forall>i k. i < MAX_SRV_CLIENTS \<and> serverClients s ! i = Some k \<longrightarrow>
           k \<notin> set (unclaimed s) \<and> k < next_conn s \<and> \<not> stopped (conns s k))
     \<and> (\<forall>k. k \<in> set (unclaimed s) \<longrightarrow> k < next_conn s \<and> \<not> stopped (conns s k))"

lemma pool_invI:
  assumes "length (serverClients s) = MAX_SRV_CLIENTS" "distinct (unclaimed s)"
    and "\<And>a b k. a < MAX_SRV_CLIENTS \<Longrightarrow> b < MAX_SRV_CLIENTS
           \<Longrightarrow> serverClients s ! a = Some k \<Longrightarrow> serverClients s ! b = Some k \<Longrightarrow> a = b"
    and "\<And>a k. a < MAX_SRV_CLIENTS \<Longrightarrow> serverClients s ! a = Some k \<Longrightarrow>
           k \<notin> set (unclaimed s) \<and> k < next_conn s \<and> \<not> stopped (conns s k)"
    and "\<And>k. k \<in> set (unclaimed s) \<Longrightarrow> k < next_conn s \<and> \<not> stopped (conns s k)"
  shows "pool_inv s"
  unfolding pool_inv_def
proof (intro conjI)
  show "\<forall>i j k. i < MAX_SRV_CLIENTS \<and> j < MAX_SRV_CLIENTS
           \<and> serverClients s ! i = Some k \<and> serverClients s ! j = Some k \<longrightarrow> i = j"
    using assms(3) by blast
  show "\<forall>i k. i < MAX_SRV_CLIENTS \<and> serverClients s ! i = Some k \<longrightarrow>
           k \<notin> set (unclaimed s) \<and> k < next_conn s \<and> \<not> stopped (conns s k)"
    using assms(4) by blast
  show "\<forall>k. k \<in> set (unclaimed s) \<longrightarrow> k < next_conn s \<and> \<not> stopped (conns s k)"
    using assms(5) by blast
qed (use assms(1,2) in auto)

lemma pool_invD:
  assumes "pool_inv s"
  shows "length (serverClients s) = MAX_SRV_CLIENTS" "distinct (unclaimed s)"
    and "\<And>a b k. a < MAX_SRV_CLIENTS \<Longrightarrow> b < MAX_SRV_CLIENTS
           \<Longrightarrow> serverClients s ! a = Some k \<Longrightarrow> serverClients s ! b = Some k \<Longrightarrow> a = b"
    and "\<And>a k. a < MAX_SRV_CLIENTS \<Longrightarrow> serverClients s ! a = Some k \<Longrightarrow>
           k \<notin> set (unclaimed s) \<and> k < next_conn s \<and> \<not> stopped (conns s k)"
    and "\<And>k. k \<in> set (unclaimed s) \<Longrightarrow> k < next_conn s \<and> \<not> stopped (conns s k)"
  using assms unfolding pool_inv_def by blast+

lemma pool_inv_cong:
  "serverClients s' = serverClients s \<Longrightarrow> unclaimed s' = unclaimed s
   \<Longrightarrow> next_conn s' = next_conn s \<Longrightarrow> (\<And>k. stopped (conns s' k) = stopped (conns s k))
   \<Longrightarrow> pool_inv s' = pool_inv s"
  by (simp add: pool_inv_def)

lemma pool_inv_power_on: "pool_inv (setup_dsc status power_on)"
  by (auto simp: pool_inv_def setup_dsc_def power_on_def Let_def)

lemma pool_inv_PeerConnect: "pool_inv s \<Longrightarrow> pool_inv (step s PeerConnect)"
  unfolding pool_inv_def by (auto simp: new_conn_def less_Suc_eq)

lemma pool_inv_PeerClose: "pool_inv s \<Longrightarrow> pool_inv (step s (PeerClose k))"
  using pool_inv_cong [of "step s (PeerClose k)" s] by (simp add: conn_upd_def)

lemma pool_inv_PeerSend: "pool_inv s \<Longrightarrow> pool_inv (step s (PeerSend k bytes))"
  using pool_inv_cong [of "step s (PeerSend k bytes)" s] by (simp add: conn_upd_def)

text \<open>Claiming a slot, spelled out.\<close>

lemma claim_slot_eq:
  "claim_slot s i =
     s\<lparr>serverClients := (serverClients s)[i := (case unclaimed s of [] \<Rightarrow> None | k # ks \<Rightarrow> Some k)],
       unclaimed := tl (unclaimed s),
       conns := (case serverClients s ! i of None \<Rightarrow> conns s
                 | Some j \<Rightarrow> (conns s)(j := conn_stop (conns s j)))\<rparr>"
  by (cases "serverClients s ! i"; cases "unclaimed s")
     (simp_all add: claim_slot_def server_available_def client_stop_def conn_upd_def)

lemma pool_inv_claim_slot:
  assumes "pool_inv s" "i < MAX_SRV_CLIENTS"
  shows "pool_inv (claim_slot s i)"
proof -
  let ?t = "claim_slot s i"
  let ?new = "case unclaimed s of [] \<Rightarrow> None | k # ks \<Rightarrow> Some k"
  note len = pool_invD(1) [OF assms(1)] and dist = pool_invD(2) [OF assms(1)]
    and share = pool_invD(3) [OF assms(1)] and slots = pool_invD(4) [OF assms(1)]
    and queue = pool_invD(5) [OF assms(1)]
  have t_slots: "serverClients ?t ! a = (if a = i then ?new else serverClients s ! a)"
    if "a < MAX_SRV_CLIENTS" for a
    using that len assms(2) by (simp add: claim_slot_eq nth_list_update)
  have t_len: "length (serverClients ?t) = MAX_SRV_CLIENTS"
    using len by (simp add: claim_slot_eq)
  have t_queue: "unclaimed ?t = tl (unclaimed s)" by (simp add: claim_slot_eq)
  have t_next: "next_conn ?t = next_conn s" by (simp add: claim_slot_eq)
  have t_stopped: "stopped (conns ?t k) = (stopped (conns s k) \<or> serverClients s ! i = Some k)" for k
    by (cases "serverClients s ! i") (auto simp: claim_slot_eq conn_stop_def)
  have new: "?new = Some k \<Longrightarrow> k \<in> set (unclaimed s) \<and> k \<notin> set (tl (unclaimed s))" for k
    using dist by (cases "unclaimed s") auto
  have tl_sub: "k \<in> set (tl (unclaimed s)) \<Longrightarrow> k \<in> set (unclaimed s)" for k
    by (cases "unclaimed s") auto
  have c2: "distinct (unclaimed ?t)" using dist by (simp add: t_queue distinct_tl)
  have c3: "a = b" if "a < MAX_SRV_CLIENTS" "b < MAX_SRV_CLIENTS"
      "serverClients ?t ! a = Some k" "serverClients ?t ! b = Some k" for a b k
  proof -
    have x: False if "u < MAX_SRV_CLIENTS" "?new = Some k" "serverClients s ! u = Some k" for u
      using new [OF that(2)] slots [OF that(1,3)] by blast
    consider "a = i" "b = i" | "a = i" "b \<noteq> i" | "a \<noteq> i" "b = i" | "a \<noteq> i" "b \<noteq> i"
      by blast
    then show ?thesis
    proof cases
      case 1
      then show ?thesis by simp
    next
      case 2
      then show ?thesis using that t_slots [OF that(1)] t_slots [OF that(2)] x [of b] by simp
    next
      case 3
      then show ?thesis using that t_slots [OF that(1)] t_slots [OF that(2)] x [of a] by simp
    next
      case 4
      then show ?thesis
        using that t_slots [OF that(1)] t_slots [OF that(2)] share [of a b k] by simp
    qed
  qed
  have c4: "k \<notin> set (unclaimed ?t) \<and> k < next_conn ?t \<and> \<not> stopped (conns ?t k)"
    if "a < MAX_SRV_CLIENTS" "serverClients ?t ! a = Some k" for a k
  proof (cases "a = i")
    case True
    then have n: "?new = Some k" using that t_slots [OF that(1)] by simp
    from new [OF n] queue slots [OF assms(2)] show ?thesis
      unfolding t_queue t_next t_stopped by blast
  next
    case False
    then have o: "serverClients s ! a = Some k" using that t_slots [OF that(1)] by simp
    from slots [OF that(1) o] share [OF that(1) assms(2) o] False tl_sub show ?thesis
      unfolding t_queue t_next t_stopped by blast
  qed
  have c5: "k < next_conn ?t \<and> \<not> stopped (conns ?t k)" if "k \<in> set (unclaimed ?t)" for k
    using that queue tl_sub slots [OF assms(2)] unfolding t_queue t_next t_stopped by blast
  show ?thesis
    by (rule pool_invI [OF t_len c2 c3 c4 c5])
qed


lemma pool_inv_reject:
  assumes "pool_inv s" "unclaimed s = k # ks"
  shows "pool_inv (conn_upd k conn_stop (s\<lparr>unclaimed := ks\<rparr>))"
proof -
  let ?t = "conn_upd k conn_stop (s\<lparr>unclaimed := ks\<rparr>)"
  note len = pool_invD(1) [OF assms(1)] and dist = pool_invD(2) [OF assms(1)]
    and share = pool_invD(3) [OF assms(1)] and slots = pool_invD(4) [OF assms(1)]
    and queue = pool_invD(5) [OF assms(1)]
  have t: "serverClients ?t = serverClients s" "unclaimed ?t = ks" "next_conn ?t = next_conn s"
    by (simp_all add: conn_upd_def)
  have t_stopped: "stopped (conns ?t j) = (stopped (conns s j) \<or> j = k)" for j
    by (simp add: conn_upd_def conn_stop_def)
  have k: "k \<notin> set ks" "distinct ks" using dist assms(2) by simp_all
  have sub: "j \<in> set ks \<Longrightarrow> j \<in> set (unclaimed s)" for j using assms(2) by simp
  have kin: "k \<in> set (unclaimed s)" using assms(2) by simp
  show ?thesis
  proof (rule pool_invI)
    show "length (serverClients ?t) = MAX_SRV_CLIENTS" using len by (simp add: t)
    show "distinct (unclaimed ?t)" using k by (simp add: t)
    show "a = b" if "a < MAX_SRV_CLIENTS" "b < MAX_SRV_CLIENTS"
      "serverClients ?t ! a = Some j" "serverClients ?t ! b = Some j" for a b j
      using that share unfolding t by blast
    show "j \<notin> set (unclaimed ?t) \<and> j < next_conn ?t \<and> \<not> stopped (conns ?t j)"
      if "a < MAX_SRV_CLIENTS" "serverClients ?t ! a = Some j" for a j
      using slots [OF that(1), of j] that(2) sub kin unfolding t t_stopped by blast
    show "j < next_conn ?t \<and> \<not> stopped (conns ?t j)" if "j \<in> set (unclaimed ?t)" for j
      using that queue [of j] sub k(1) unfolding t t_stopped by blast
  qed
qed

lemma accept_scan_connected:
  assumes "\<forall>j. i \<le> j \<and> j < m \<longrightarrow> connected s (serverClients s ! j)"
    and "m \<le> MAX_SRV_CLIENTS" "i \<le> m"
  shows "accept_scan s i = accept_scan s m"
  using assms
proof (induction "m - i" arbitrary: i)
  case 0
  then show ?case by simp
next
  case (Suc d)
  then have "i < m" by simp
  then have "connected s (serverClients s ! i)" "i < MAX_SRV_CLIENTS"
    using Suc.prems by auto
  then have "accept_scan s i = accept_scan s (Suc i)" by (simp add: accept_scan_skip)
  moreover have "accept_scan s (Suc i) = accept_scan s m"
    using Suc.hyps Suc.prems \<open>i < m\<close> by (intro Suc.hyps(1)) auto
  ultimately show ?case by simp
qed

lemma accept_clients_none: "unclaimed s = [] \<Longrightarrow> accept_clients s = s"
  by (simp add: accept_clients_def)

lemma accept_clients_first_free:
  assumes "unclaimed s \<noteq> []" "i < MAX_SRV_CLIENTS" "\<not> connected s (serverClients s ! i)"
    and "\<forall>j<i. connected s (serverClients s ! j)"
  shows "accept_clients s = claim_slot s i"
proof -
  have "accept_scan s 0 = accept_scan s i"
    using assms(2,4) by (intro accept_scan_connected) auto
  then have "accept_scan s 0 = (claim_slot s i, i)"
    using assms(2,3) by (simp add: accept_scan_claim)
  then show ?thesis using assms(1,2) by (simp add: accept_clients_def)
qed

lemma accept_clients_full:
  assumes "unclaimed s = k # ks" "\<forall>j<MAX_SRV_CLIENTS. connected s (serverClients s ! j)"
  shows "accept_clients s = conn_upd k conn_stop (s\<lparr>unclaimed := ks\<rparr>)"
proof -
  have "accept_scan s 0 = accept_scan s MAX_SRV_CLIENTS"
    using assms(2) by (intro accept_scan_connected) auto
  then have "accept_scan s 0 = (s, MAX_SRV_CLIENTS)" by (simp add: accept_scan_done)
  then show ?thesis
    using assms(1) by (simp add: accept_clients_def server_available_def client_stop_def)
qed

lemma first_free_slot:
  assumes "\<not> (\<forall>j<MAX_SRV_CLIENTS. connected s (serverClients s ! j))"
  obtains i where "i < MAX_SRV_CLIENTS" "\<not> connected s (serverClients s ! i)"
    "\<forall>j<i. connected s (serverClients s ! j)"
proof -
  let ?P = "\<lambda>n. n < MAX_SRV_CLIENTS \<and> \<not> connected s (serverClients s ! n)"
  from assms have "\<exists>n. ?P n" by blast
  then obtain i where i: "?P i" "\<forall>m<i. \<not> ?P m"
    using exists_least_iff [of ?P] by blast
  then have "\<forall>j<i. connected s (serverClients s ! j)"
    using less_trans by blast
  with i(1) that show ?thesis by blast
qed

lemma pool_inv_accept_clients:
  assumes "pool_inv s"
  shows "pool_inv (accept_clients s)"
proof (cases "unclaimed s")
  case Nil
  with assms show ?thesis by (simp add: accept_clients_none)
next
  case (Cons k ks)
  show ?thesis
  proof (cases "\<forall>j<MAX_SRV_CLIENTS. connected s (serverClients s ! j)")
    case True
    with Cons assms show ?thesis by (simp add: accept_clients_full pool_inv_reject)
  next
    case False
    then obtain i where "i < MAX_SRV_CLIENTS" "\<not> connected s (serverClients s ! i)"
      "\<forall>j<i. connected s (serverClients s ! j)" by (rule first_free_slot)
    with Cons assms show ?thesis
      by (simp add: accept_clients_first_free pool_inv_claim_slot)
  qed
qed


lemma attend_client_flags:
  assumes "attend_client az alt c = (c', stop)"
  shows "stopped c' = (stopped c \<or> stop)" "alive c' = alive c"
  using assms unfolding attend_client_def Let_def conn_println_def conn_write_def conn_stop_def
  by (auto split: list.splits if_splits)

lemma dispatch_one_idle:
  "serverClients s ! i = None \<Longrightarrow> dispatch_one s i = s"
  "serverClients s ! i = Some k \<Longrightarrow> \<not> alive (conns s k) \<Longrightarrow> dispatch_one s i = s"
  by (simp_all add: dispatch_one_def)

lemma dispatch_one_live:
  assumes "serverClients s ! i = Some k" "alive (conns s k)"
    and "attend_client (Azimuth_pos s) (Altitude_pos s) (conns s k) = (c, stop)"
  shows "dispatch_one s i =
           s\<lparr>conns := (conns s)(k := c),
             serverClients := (if stop then (serverClients s)[i := None] else serverClients s)\<rparr>"
  using assms by (simp add: dispatch_one_def)

lemma dispatch_one_cases:
  obtains (idle) "dispatch_one s i = s"
      "\<And>k. serverClients s ! i = Some k \<Longrightarrow> \<not> alive (conns s k)"
    | (live) k c stop where "serverClients s ! i = Some k" "alive (conns s k)"
      "attend_client (Azimuth_pos s) (Altitude_pos s) (conns s k) = (c, stop)"
      "dispatch_one s i =
           s\<lparr>conns := (conns s)(k := c),
             serverClients := (if stop then (serverClients s)[i := None] else serverClients s)\<rparr>"
proof (cases "serverClients s ! i")
  case None
  then show ?thesis using idle dispatch_one_idle(1) by simp
next
  case (Some k)
  show ?thesis
  proof (cases "alive (conns s k)")
    case False
    with Some show ?thesis using idle dispatch_one_idle(2) by simp
  next
    case True
    obtain c stop where a: "attend_client (Azimuth_pos s) (Altitude_pos s) (conns s k) = (c, stop)"
      by (cases "attend_client (Azimuth_pos s) (Altitude_pos s) (conns s k)") auto
    from live [OF Some True a dispatch_one_live [OF Some True a]] show ?thesis .
  qed
qed

lemma pool_inv_dispatch_one:
  assumes "pool_inv s" "i < MAX_SRV_CLIENTS"
  shows "pool_inv (dispatch_one s i)"
proof (cases rule: dispatch_one_cases [of s i])
  case idle
  with assms show ?thesis by simp
next
  case (live k c stop)
  let ?t = "dispatch_one s i"
  note len = pool_invD(1) [OF assms(1)] and dist = pool_invD(2) [OF assms(1)]
    and share = pool_invD(3) [OF assms(1)] and slots = pool_invD(4) [OF assms(1)]
    and queue = pool_invD(5) [OF assms(1)]
  have t: "unclaimed ?t = unclaimed s" "next_conn ?t = next_conn s"
    by (simp_all add: live(4))
  have t_len: "length (serverClients ?t) = MAX_SRV_CLIENTS" using len by (simp add: live(4))
  have t_slots: "serverClients ?t ! a = (if a = i \<and> stop then None else serverClients s ! a)"
    if "a < MAX_SRV_CLIENTS" for a
    using that len by (simp add: live(4) nth_list_update)
  have t_stopped: "stopped (conns ?t j) = (stopped (conns s j) \<or> (j = k \<and> stop))" for j
    using attend_client_flags(1) [OF live(3)] by (simp add: live(4))
  show ?thesis
  proof (rule pool_invI)
    show "length (serverClients ?t) = MAX_SRV_CLIENTS" by (rule t_len)
    show "distinct (unclaimed ?t)" using dist by (simp add: t)
    show "a = b" if "a < MAX_SRV_CLIENTS" "b < MAX_SRV_CLIENTS"
      "serverClients ?t ! a = Some j" "serverClients ?t ! b = Some j" for a b j
      using that t_slots [OF that(1)] t_slots [OF that(2)] share [of a b j]
      by (auto split: if_splits)
    show "j \<notin> set (unclaimed ?t) \<and> j < next_conn ?t \<and> \<not> stopped (conns ?t j)"
      if "a < MAX_SRV_CLIENTS" "serverClients ?t ! a = Some j" for a j
    proof -
      have o: "serverClients s ! a = Some j" "\<not> (a = i \<and> stop)"
        using that t_slots [OF that(1)] by (auto split: if_splits)
      have "\<not> (j = k \<and> stop)"
        using o share [OF that(1) assms(2) _ live(1)] by blast
      with slots [OF that(1) o(1)] show ?thesis unfolding t t_stopped by blast
    qed
    show "j < next_conn ?t \<and> \<not> stopped (conns ?t j)" if "j \<in> set (unclaimed ?t)" for j
      using that queue [of j] slots [OF assms(2) live(1)] unfolding t t_stopped by auto
  qed
qed

lemma pool_inv_dispatch_all:
  "pool_inv s \<Longrightarrow> \<forall>i\<in>set is. i < MAX_SRV_CLIENTS \<Longrightarrow> pool_inv (foldl dispatch_one s is)"
  by (induction "is" arbitrary: s) (simp_all add: pool_inv_dispatch_one)

lemma pool_inv_attendTcpRequests: "pool_inv s \<Longrightarrow> pool_inv (attendTcpRequests s)"
  by (simp add: attendTcpRequests_def pool_inv_dispatch_all pool_inv_accept_clients)

lemma pool_inv_loop: "pool_inv s \<Longrightarrow> pool_inv (loop r enc s)"
proof -
  assume a: "pool_inv s"
  obtain n b p where rd: "readFromSerial (buf s) (pos s) r = (n, b, p)"
    by (cases "readFromSerial (buf s) (pos s) r") auto
  let ?s3 = "(if n > 0 then (s\<lparr>buf := b, pos := p\<rparr>)\<lparr>Azimuth_pos := atol b\<rparr>
                else s\<lparr>buf := b, pos := p\<rparr>)\<lparr>Altitude_pos := enc\<rparr>"
  have "pool_inv ?s3 = pool_inv s" by (rule pool_inv_cong) simp_all
  moreover have "loop r enc s = attendTcpRequests ?s3"
    by (simp add: loop_def rd Let_def)
  ultimately show ?thesis using a by (simp add: pool_inv_attendTcpRequests)
qed

lemma pool_inv_step: "pool_inv s \<Longrightarrow> pool_inv (step s ev)"
  by (cases ev)
     (simp_all only: step.simps pool_inv_loop pool_inv_PeerConnect [simplified]
        pool_inv_PeerClose [simplified] pool_inv_PeerSend [simplified])

lemma pool_inv_foldl_step: "pool_inv s \<Longrightarrow> pool_inv (foldl step s evs)"
  by (induction evs arbitrary: s) (simp_all add: pool_inv_step)

lemma pool_inv_run: "pool_inv (run status evs)"
  unfolding run_def by (rule pool_inv_foldl_step [OF pool_inv_power_on])


subsection \<open>Serving the clients\<close>

lemma dispatch_one_positions:
  "Azimuth_pos (dispatch_one s i) = Azimuth_pos s" "Altitude_pos (dispatch_one s i) = Altitude_pos s"
  unfolding globals_fields [of "dispatch_one s i"] globals_fields [of s] by simp_all

text \<open>The second loop serves each connected client, each on its own connection.\<close>

lemma dispatch_all_conn:
  assumes "pool_inv s" "distinct is" "\<forall>i\<in>set is. i < MAX_SRV_CLIENTS"
  shows "conns (foldl dispatch_one s is) k =
           (if (\<exists>i\<in>set is. serverClients s ! i = Some k) \<and> alive (conns s k)
            then fst (attend_client (Azimuth_pos s) (Altitude_pos s) (conns s k))
            else conns s k)"
  using assms
proof (induction "is" arbitrary: s)
  case Nil
  then show ?case by simp
next
  case (Cons i js)
  let ?t = "dispatch_one s i"
  have i: "i < MAX_SRV_CLIENTS" "i \<notin> set js" "distinct js" "\<forall>j\<in>set js. j < MAX_SRV_CLIENTS"
    using Cons.prems by auto
  have inv_t: "pool_inv ?t" using Cons.prems(1) i(1) by (rule pool_inv_dispatch_one)
  note IH = Cons.IH [OF inv_t i(3,4), unfolded dispatch_one_positions]
  note len = pool_invD(1) [OF Cons.prems(1)] and share = pool_invD(3) [OF Cons.prems(1)]
  show ?case
  proof (cases rule: dispatch_one_cases [of s i])
    case idle
    have "((\<exists>j\<in>set (i # js). serverClients s ! j = Some k) \<and> alive (conns s k))
        = ((\<exists>j\<in>set js. serverClients s ! j = Some k) \<and> alive (conns s k))"
      using idle(2) by auto
    then show ?thesis using IH idle(1) by simp
  next
    case (live ki c stop)
    have t_slots: "serverClients ?t ! j = serverClients s ! j" if "j \<in> set js" for j
    proof -
      have "j \<noteq> i" using that i(2) by blast
      then show ?thesis by (simp add: live(4))
    qed
    have t_conns: "conns ?t = (conns s)(ki := c)" by (simp add: live(4))
    have ex: "(\<exists>j\<in>set js. serverClients ?t ! j = Some k) = (\<exists>j\<in>set js. serverClients s ! j = Some k)"
      using t_slots by auto
    show ?thesis
    proof (cases "k = ki")
      case True
      have "\<not> (\<exists>j\<in>set js. serverClients s ! j = Some ki)"
        using share [OF _ i(1) _ live(1)] i(2,4) by blast
      then have "conns (foldl dispatch_one ?t js) k = conns ?t k"
        using IH ex True by simp
      then show ?thesis using True live(1,2,3) by (simp add: t_conns)
    next
      case False
      have "serverClients s ! i \<noteq> Some k" using live(1) False by simp
      then have "(\<exists>j\<in>set (i # js). serverClients s ! j = Some k)
          = (\<exists>j\<in>set js. serverClients s ! j = Some k)" by simp
      then show ?thesis using IH ex False by (simp add: t_conns)
    qed
  qed
qed

lemma dispatch_one_others:
  "unclaimed (dispatch_one s i) = unclaimed s \<and> next_conn (dispatch_one s i) = next_conn s"
  by (cases rule: dispatch_one_cases [of s i]) simp_all

lemma dispatch_all_others:
  "unclaimed (foldl dispatch_one s is) = unclaimed s
   \<and> next_conn (foldl dispatch_one s is) = next_conn s"
  by (induction "is" arbitrary: s) (simp_all add: dispatch_one_others)

lemma upt_MAX_SRV_CLIENTS:
  "distinct [0..<MAX_SRV_CLIENTS]" "\<forall>i\<in>set [0..<MAX_SRV_CLIENTS]. i < MAX_SRV_CLIENTS"
  by simp_all

lemma attendTcpRequests_conn:
  assumes "pool_inv s"
  shows "conns (attendTcpRequests s) k =
           (if (\<exists>i<MAX_SRV_CLIENTS. serverClients (accept_clients s) ! i = Some k)
               \<and> alive (conns (accept_clients s) k)
            then fst (attend_client (Azimuth_pos s) (Altitude_pos s) (conns (accept_clients s) k))
            else conns (accept_clients s) k)"
proof -
  have p: "Azimuth_pos (accept_clients s) = Azimuth_pos s"
      "Altitude_pos (accept_clients s) = Altitude_pos s"
    unfolding globals_fields [of "accept_clients s"] globals_fields [of s] by simp_all
  have e: "(\<exists>i\<in>set [0..<MAX_SRV_CLIENTS]. P i) = (\<exists>i<MAX_SRV_CLIENTS. P i)" for P
    by auto
  from dispatch_all_conn [OF pool_inv_accept_clients [OF assms] upt_MAX_SRV_CLIENTS, of k]
  show ?thesis unfolding attendTcpRequests_def p e .
qed


lemma accept_clients_keeps_live:
  assumes "pool_inv s" "i < MAX_SRV_CLIENTS" "serverClients s ! i = Some k" "alive (conns s k)"
  shows "serverClients (accept_clients s) ! i = Some k" "conns (accept_clients s) k = conns s k"
proof -
  note len = pool_invD(1) [OF assms(1)] and share = pool_invD(3) [OF assms(1)]
    and slots = pool_invD(4) [OF assms(1)]
  have c: "connected s (serverClients s ! i)" using assms(3,4) by (simp add: connected_def)
  have "serverClients (accept_clients s) ! i = Some k \<and> conns (accept_clients s) k = conns s k"
  proof (cases "unclaimed s")
    case Nil
    then show ?thesis using assms(3) by (simp add: accept_clients_none)
  next
    case (Cons q qs)
    show ?thesis
    proof (cases "\<forall>j<MAX_SRV_CLIENTS. connected s (serverClients s ! j)")
      case True
      have "q \<noteq> k" using slots [OF assms(2,3)] Cons by auto
      then show ?thesis
        using assms(3) by (simp add: accept_clients_full [OF Cons True] conn_upd_def)
    next
      case False
      then obtain f where f: "f < MAX_SRV_CLIENTS" "\<not> connected s (serverClients s ! f)"
        "\<forall>j<f. connected s (serverClients s ! j)" by (rule first_free_slot)
      have ne: "f \<noteq> i" using f(2) c by auto
      have a: "accept_clients s = claim_slot s f"
        using Cons f by (intro accept_clients_first_free) simp_all
      have "serverClients s ! f \<noteq> Some k"
        using share [OF f(1) assms(2) _ assms(3)] ne by blast
      then have "conns (claim_slot s f) k = conns s k"
        by (cases "serverClients s ! f") (simp_all add: claim_slot_eq)
      moreover have "serverClients (claim_slot s f) ! i = Some k"
        using ne assms(3) by (simp add: claim_slot_eq)
      ultimately show ?thesis by (simp add: a)
    qed
  qed
  then show "serverClients (accept_clients s) ! i = Some k"
    "conns (accept_clients s) k = conns s k" by simp_all
qed

text \<open>A live client in a slot is served in the same call, on its own connection only.\<close>

lemma attendTcpRequests_serves:
  assumes "pool_inv s" "i < MAX_SRV_CLIENTS" "serverClients s ! i = Some k" "alive (conns s k)"
  shows "conns (attendTcpRequests s) k =
           fst (attend_client (Azimuth_pos s) (Altitude_pos s) (conns s k))"
  using attendTcpRequests_conn [OF assms(1), of k] accept_clients_keeps_live [OF assms] assms(2,4)
  by auto

lemma attendTcpRequests_queue:
  "unclaimed (attendTcpRequests s) = unclaimed (accept_clients s)"
  by (simp add: attendTcpRequests_def dispatch_all_others)

subsection \<open>A full pool\<close>

text \<open>
  C7. In a state the program reaches in which all \<^verbatim>\<open>MAX_SRV_CLIENTS\<close> (three) slots hold
  connected clients and a further connection is pending, the first part of
  \<^verbatim>\<open>attendTcpRequests\<close> takes that connection from the server and stops it at once: it
  enters no slot and is no longer queued. The three clients keep their slots and their
  connections untouched and stay connected, and the second part of the same call serves each
  of them on its own connection, as \<open>attend_client\<close> prescribes for that connection alone.
\<close>

theorem C7_fourth_client_rejected:
  assumes "s = run status evs"
    and "\<forall>i<MAX_SRV_CLIENTS. connected s (serverClients s ! i)"
    and "unclaimed s = k # ks"
  shows "serverClients (accept_clients s) = serverClients s
     \<and> unclaimed (accept_clients s) = ks
     \<and> stopped (conns (accept_clients s) k)
     \<and> k \<notin> set ks \<and> Some k \<notin> set (serverClients s)
     \<and> unclaimed (attendTcpRequests s) = ks
     \<and> (\<forall>i<MAX_SRV_CLIENTS. \<exists>c. serverClients s ! i = Some c \<and> c \<noteq> k
           \<and> conns (accept_clients s) c = conns s c
           \<and> connected (accept_clients s) (serverClients (accept_clients s) ! i)
           \<and> conns (attendTcpRequests s) c =
               fst (attend_client (Azimuth_pos s) (Altitude_pos s) (conns s c)))"
proof -
  have inv: "pool_inv s" using assms(1) pool_inv_run by simp
  note len = pool_invD(1) [OF inv] and dist = pool_invD(2) [OF inv]
    and slots = pool_invD(4) [OF inv]
  have a: "accept_clients s = conn_upd k conn_stop (s\<lparr>unclaimed := ks\<rparr>)"
    using assms(3,2) by (rule accept_clients_full)
  have a1: "serverClients (accept_clients s) = serverClients s"
    "unclaimed (accept_clients s) = ks" "stopped (conns (accept_clients s) k)"
    by (simp_all add: a conn_upd_def conn_stop_def)
  have k: "k \<notin> set ks" using dist assms(3) by simp
  have nk: "Some k \<notin> set (serverClients s)"
  proof
    assume "Some k \<in> set (serverClients s)"
    then obtain i where "i < MAX_SRV_CLIENTS" "serverClients s ! i = Some k"
      using len by (auto simp: in_set_conv_nth)
    from slots [OF this] assms(3) show False by simp
  qed
  have each: "\<exists>c. serverClients s ! i = Some c \<and> c \<noteq> k
           \<and> conns (accept_clients s) c = conns s c
           \<and> connected (accept_clients s) (serverClients (accept_clients s) ! i)
           \<and> conns (attendTcpRequests s) c =
               fst (attend_client (Azimuth_pos s) (Altitude_pos s) (conns s c))"
    if i: "i < MAX_SRV_CLIENTS" for i
  proof -
    from assms(2) i obtain c where c: "serverClients s ! i = Some c" "alive (conns s c)"
      by (auto simp: connected_def split: option.splits)
    have "c \<noteq> k" using slots [OF i c(1)] assms(3) by auto
    moreover note accept_clients_keeps_live [OF inv i c] attendTcpRequests_serves [OF inv i c]
    ultimately show ?thesis using c by (simp add: connected_def)
  qed
  show ?thesis
    using a1 k nk each by (simp add: attendTcpRequests_queue)
qed

subsection \<open>Reusing a slot\<close>

text \<open>
  C8. In every state the program reaches the client array has \<^verbatim>\<open>MAX_SRV_CLIENTS\<close> slots,
  each holding at most one connection, no connection is held by two slots, and so at most
  \<^verbatim>\<open>MAX_SRV_CLIENTS\<close> connections are live in the pool. When a connection is pending and
  slot \<open>i\<close> is the first that is empty or whose client is no longer connected, the pending
  connection is put in slot \<open>i\<close> and leaves the queue, untouched, and the stale connection
  that the slot referred to, if any, has been stopped.
\<close>

theorem C8_slot_reused:
  assumes "s = run status evs"
  shows "length (serverClients s) = MAX_SRV_CLIENTS
     \<and> (\<forall>i j c. i < MAX_SRV_CLIENTS \<and> j < MAX_SRV_CLIENTS
            \<and> serverClients s ! i = Some c \<and> serverClients s ! j = Some c \<longrightarrow> i = j)
     \<and> length (filter (connected s) (serverClients s)) \<le> MAX_SRV_CLIENTS
     \<and> (\<forall>i k ks. unclaimed s = k # ks \<and> i < MAX_SRV_CLIENTS
            \<and> \<not> connected s (serverClients s ! i)
            \<and> (\<forall>j<i. connected s (serverClients s ! j)) \<longrightarrow>
          serverClients (accept_clients s) = (serverClients s)[i := Some k]
          \<and> unclaimed (accept_clients s) = ks
          \<and> (\<forall>c. serverClients s ! i = Some c \<longrightarrow> stopped (conns (accept_clients s) c))
          \<and> conns (accept_clients s) k = conns s k)"
proof -
  have inv: "pool_inv s" using assms(1) pool_inv_run by simp
  note len = pool_invD(1) [OF inv] and share = pool_invD(3) [OF inv]
    and slots = pool_invD(4) [OF inv]
  have f: "length (filter (connected s) (serverClients s)) \<le> MAX_SRV_CLIENTS"
    using length_filter_le [of "connected s" "serverClients s"] len by simp
  have reuse: "serverClients (accept_clients s) = (serverClients s)[i := Some k]
          \<and> unclaimed (accept_clients s) = ks
          \<and> (\<forall>c. serverClients s ! i = Some c \<longrightarrow> stopped (conns (accept_clients s) c))
          \<and> conns (accept_clients s) k = conns s k"
    if h: "unclaimed s = k # ks" "i < MAX_SRV_CLIENTS" "\<not> connected s (serverClients s ! i)"
      "\<forall>j<i. connected s (serverClients s ! j)" for i k ks
  proof -
    have a: "accept_clients s = claim_slot s i"
      using h by (intro accept_clients_first_free) simp_all
    have "serverClients s ! i \<noteq> Some k" using slots [OF h(2), of k] h(1) by auto
    then have "conns (claim_slot s i) k = conns s k"
      by (cases "serverClients s ! i") (simp_all add: claim_slot_eq)
    then show ?thesis
      using h(1) by (auto simp: a claim_slot_eq conn_stop_def)
  qed
  show ?thesis using len share f reuse by blast
qed


theorem C7_fourth_client_rejected_witness:
  "unclaimed (run WL_CONNECTED [PeerConnect, Pass None 0, PeerConnect, Pass None 0,
       PeerConnect, Pass None 0, PeerConnect]) = [3]
   \<and> serverClients (run WL_CONNECTED [PeerConnect, Pass None 0, PeerConnect, Pass None 0,
       PeerConnect, Pass None 0, PeerConnect]) = [Some 0, Some 1, Some 2]
   \<and> serverClients (accept_clients (run WL_CONNECTED [PeerConnect, Pass None 0, PeerConnect,
       Pass None 0, PeerConnect, Pass None 0, PeerConnect])) = [Some 0, Some 1, Some 2]
   \<and> stopped (conns (accept_clients (run WL_CONNECTED [PeerConnect, Pass None 0, PeerConnect,
       Pass None 0, PeerConnect, Pass None 0, PeerConnect])) 3)
   \<and> unclaimed (attendTcpRequests (run WL_CONNECTED [PeerConnect, Pass None 0, PeerConnect,
       Pass None 0, PeerConnect, Pass None 0, PeerConnect])) = []"
proof -
  let ?s = "run WL_CONNECTED [PeerConnect, Pass None 0, PeerConnect, Pass None 0,
       PeerConnect, Pass None 0, PeerConnect]"
  have sl: "serverClients ?s = [Some 0, Some 1, Some 2]" by code_simp
  have al: "alive (conns ?s 0)" "alive (conns ?s 1)" "alive (conns ?s 2)" by code_simp+
  have uq: "unclaimed ?s = [3]" by code_simp
  have full: "\<forall>i<MAX_SRV_CLIENTS. connected ?s (serverClients ?s ! i)"
    unfolding sl using al
    by (auto simp: MAX_SRV_CLIENTS_def connected_def less_Suc_eq numeral_3_eq_3)
  from C7_fourth_client_rejected [OF refl full uq] show ?thesis
    unfolding sl uq by blast
qed

theorem C8_slot_reused_witness:
  "serverClients (run WL_CONNECTED [PeerConnect, Pass None 0, PeerClose 0, PeerConnect])
     = [Some 0, None, None]
   \<and> \<not> alive (conns (run WL_CONNECTED [PeerConnect, Pass None 0, PeerClose 0, PeerConnect]) 0)
   \<and> unclaimed (run WL_CONNECTED [PeerConnect, Pass None 0, PeerClose 0, PeerConnect]) = [1]
   \<and> serverClients (accept_clients
        (run WL_CONNECTED [PeerConnect, Pass None 0, PeerClose 0, PeerConnect]))
     = [Some 1, None, None]
   \<and> unclaimed (accept_clients
        (run WL_CONNECTED [PeerConnect, Pass None 0, PeerClose 0, PeerConnect])) = []
   \<and> stopped (conns (accept_clients
        (run WL_CONNECTED [PeerConnect, Pass None 0, PeerClose 0, PeerConnect])) 0)"
proof -
  let ?s = "run WL_CONNECTED [PeerConnect, Pass None 0, PeerClose 0, PeerConnect]"
  have sl: "serverClients ?s = [Some 0, None, None]" by code_simp
  have al: "\<not> alive (conns ?s 0)" by code_simp
  have uq: "unclaimed ?s = [1]" by code_simp
  have h: "unclaimed ?s = 1 # [] \<and> 0 < MAX_SRV_CLIENTS
            \<and> \<not> connected ?s (serverClients ?s ! 0)
            \<and> (\<forall>j<0. connected ?s (serverClients ?s ! j))"
    unfolding sl using al uq by (simp add: MAX_SRV_CLIENTS_def connected_def)
  from C8_slot_reused [OF refl, of WL_CONNECTED
      "[PeerConnect, Pass None 0, PeerClose 0, PeerConnect]"]
  have "\<forall>i k ks. unclaimed ?s = k # ks \<and> i < MAX_SRV_CLIENTS
            \<and> \<not> connected ?s (serverClients ?s ! i)
            \<and> (\<forall>j<i. connected ?s (serverClients ?s ! j)) \<longrightarrow>
          serverClients (accept_clients ?s) = (serverClients ?s)[i := Some k]
          \<and> unclaimed (accept_clients ?s) = ks
          \<and> (\<forall>c. serverClients ?s ! i = Some c \<longrightarrow> stopped (conns (accept_clients ?s) c))
          \<and> conns (accept_clients ?s) k = conns ?s k"
    by blast
  from this [rule_format, OF h] have
    "serverClients (accept_clients ?s) = (serverClients ?s)[0 := Some 1]"
    "unclaimed (accept_clients ?s) = []"
    "\<forall>c. serverClients ?s ! 0 = Some c \<longrightarrow> stopped (conns (accept_clients ?s) c)"
    by blast+
  then show ?thesis using al uq unfolding sl by simp
qed

subsection \<open>Answers to commands\<close>

lemma sprintf_Q_home: "sprintf_Q 0 0 = [CHR ''0'', TAB, CHR ''0'', TAB, LF]"
  by code_simp

lemma attend_client_Q:
  "rx c = CHR ''Q'' # rest \<Longrightarrow>
   attend_client az alt c = (c\<lparr>rx := rest, tx := tx c @ sprintf_Q az alt @ [CR, LF]\<rparr>, False)"
  by (simp add: attend_client_def conn_println_def conn_write_def)

lemma attend_client_H:
  "rx c = CHR ''H'' # rest \<Longrightarrow>
   attend_client az alt c = (c\<lparr>rx := rest, tx := tx c @ snprintf_H @ [CR, LF]\<rparr>, False)"
  by (simp add: attend_client_def conn_println_def conn_write_def)

lemma snprintf_H_value: "snprintf_H = ''10200-10200''"
  by (simp add: snprintf_H_def AZIMUTH_TOTAL_STEPS_def ALTITUDE_TOTAL_STEPS_def dec_nat.simps
      char_of_def bit_Suc_0_iff)

lemma attend_client_G:
  "rx c = CHR ''G'' # rest \<Longrightarrow>
   attend_client az alt c =
     (c\<lparr>rx := [],
        tx := tx c @ ''HTTP/1.1 200 OK'' @ [CR, LF] @ ''Content-type: text/plain'' @ [CR, LF]
                @ ''Content-length:'' @ [char_of (int (length (sprintf_Q az alt)))]
                @ [CR, LF, CR, LF] @ sprintf_Q az alt @ [CR, LF],
        stopped := True\<rparr>, True)"
  by (simp add: attend_client_def conn_println_def conn_write_def conn_stop_def Let_def)

lemma loop_None: "loop None enc s = attendTcpRequests (s\<lparr>Altitude_pos := enc\<rparr>)"
  by (simp add: loop_def readFromSerial_None)

lemma Azimuth_no_serial:
  "list_all (\<lambda>r. r = None) (uart evs) \<Longrightarrow> Azimuth_pos (foldl step s evs) = Azimuth_pos s"
proof (induction evs arbitrary: s)
  case Nil
  then show ?case by simp
next
  case (Cons ev evs)
  have "Azimuth_pos (step s ev) = Azimuth_pos s \<and> list_all (\<lambda>r. r = None) (uart evs)"
  proof (cases ev)
    case (Pass r enc)
    then have "r = None" using Cons.prems by simp
    then show ?thesis
      using Pass Cons.prems loop_serial(3) [OF readFromSerial_None, where s = s and enc = enc]
      by simp
  qed (use Cons.prems in \<open>simp_all add: conn_upd_def\<close>)
  with Cons.IH [of "step s ev"] show ?case by simp
qed

text \<open>
  C5 (as amended). As long as no byte has arrived on the serial line, and with the altitude
  encoder reading 0, a connected client in a slot whose next byte is \<open>Q\<close> is answered
  in the next pass with the bytes \<open>0 TAB 0 TAB LF\<close> followed by the carriage return and
  line feed that \<^verbatim>\<open>println\<close> appends; the command byte is consumed and nothing else of the
  connection changes.
\<close>

theorem C5_query_at_home:
  assumes "list_all (\<lambda>r. r = None) (uart evs)" "s = run status evs"
    and "i < MAX_SRV_CLIENTS" "serverClients s ! i = Some k" "alive (conns s k)"
    and "rx (conns s k) = CHR ''Q'' # rest"
  shows "conns (loop None 0 s) k =
           (conns s k)\<lparr>rx := rest,
                        tx := tx (conns s k) @ [CHR ''0'', TAB, CHR ''0'', TAB, LF] @ [CR, LF]\<rparr>"
proof -
  let ?s = "s\<lparr>Altitude_pos := 0\<rparr>"
  have "pool_inv s" using assms(2) pool_inv_run by simp
  moreover have "pool_inv ?s = pool_inv s" by (rule pool_inv_cong) simp_all
  ultimately have inv: "pool_inv ?s" by simp
  have az: "Azimuth_pos ?s = 0"
    using Azimuth_no_serial [OF assms(1), of "setup_dsc status power_on"] assms(2)
    by (simp add: run_def setup_dsc_def power_on_def Let_def)
  have h: "serverClients ?s ! i = Some k" "alive (conns ?s k)" using assms(4,5) by simp_all
  from attendTcpRequests_serves [OF inv assms(3) h]
  have "conns (loop None 0 s) k = fst (attend_client 0 0 (conns s k))"
    using az by (simp add: loop_None)
  then show ?thesis
    by (simp add: attend_client_Q [OF assms(6)] sprintf_Q_home)
qed

theorem C5_query_at_home_witness:
  "serverClients (run WL_CONNECTED [PeerConnect, Pass None 0, PeerSend 0 ''Q'']) ! 0 = Some 0
   \<and> rx (conns (run WL_CONNECTED [PeerConnect, Pass None 0, PeerSend 0 ''Q'']) 0) = ''Q''
   \<and> tx (conns (loop None 0 (run WL_CONNECTED [PeerConnect, Pass None 0, PeerSend 0 ''Q''])) 0)
       = [CHR ''0'', TAB, CHR ''0'', TAB, LF, CR, LF]"
proof -
  let ?evs = "[PeerConnect, Pass None 0, PeerSend 0 ''Q'']"
  let ?s = "run WL_CONNECTED ?evs"
  have q: "list_all (\<lambda>r. r = None) (uart ?evs)" by simp
  have i: "(0::nat) < MAX_SRV_CLIENTS" by (simp add: MAX_SRV_CLIENTS_def)
  have sl: "serverClients ?s ! 0 = Some 0" by code_simp
  have al: "alive (conns ?s 0)" by code_simp
  have r: "rx (conns ?s 0) = CHR ''Q'' # []" by code_simp
  have t: "tx (conns ?s 0) = []" by code_simp
  from C5_query_at_home [OF q refl i sl al r] show ?thesis
    using sl r t by simp
qed

text \<open>
  The claim as written fails: the answer to the first \<open>Q\<close> after power-on has seven
  bytes, two more than \<open>0 TAB 0 TAB LF\<close>.
\<close>

theorem C5_extra_bytes_counterexample:
  "tx (conns (run WL_CONNECTED [PeerConnect, PeerSend 0 ''Q'', Pass None 0]) 0)
     = [CHR ''0'', TAB, CHR ''0'', TAB, LF, CR, LF]
   \<and> tx (conns (run WL_CONNECTED [PeerConnect, PeerSend 0 ''Q'', Pass None 0]) 0)
     \<noteq> [CHR ''0'', TAB, CHR ''0'', TAB, LF]"
  by code_simp

text \<open>
  C4. At power-on positions a client sends \<open>G\<close>. The response is the status line, the
  content type, \<^verbatim>\<open>Content-length:\<close> followed by the single byte 5 (not the digit
  \<open>5\<close>, the decimal length of the body), an empty line, and the body with the line end of
  \<^verbatim>\<open>println\<close>. After it the input of the connection is drained, the connection is stopped
  and its slot is empty.
\<close>

theorem C4_content_length_is_one_raw_byte:
  "tx (conns (run WL_DISCONNECTED [PeerConnect, PeerSend 0 ''G'', Pass None 0]) 0) =
     ''HTTP/1.1 200 OK'' @ [CR, LF] @ ''Content-type: text/plain'' @ [CR, LF]
       @ ''Content-length:'' @ [CHR 0x05] @ [CR, LF, CR, LF] @ sprintf_Q 0 0 @ [CR, LF]
   \<and> sprintf_Q 0 0 = [CHR ''0'', TAB, CHR ''0'', TAB, LF]
   \<and> dec_nat (length (sprintf_Q 0 0)) = ''5''
   \<and> rx (conns (run WL_DISCONNECTED [PeerConnect, PeerSend 0 ''G'', Pass None 0]) 0) = []
   \<and> stopped (conns (run WL_DISCONNECTED [PeerConnect, PeerSend 0 ''G'', Pass None 0]) 0)
   \<and> serverClients (run WL_DISCONNECTED [PeerConnect, PeerSend 0 ''G'', Pass None 0])
       = [None, None, None]"
  by code_simp

subsection \<open>Start-up\<close>

lemma WiFi_step: "WiFi (step s ev) = WiFi s"
proof (cases ev)
  case (Pass r enc)
  obtain n b p where "readFromSerial (buf s) (pos s) r = (n, b, p)"
    by (cases "readFromSerial (buf s) (pos s) r") auto
  from loop_serial(5) [OF this] Pass show ?thesis by simp
qed (simp_all add: conn_upd_def)

lemma WiFi_run: "WiFi (run status evs) = WiFi (setup_dsc status power_on)"
proof -
  have "WiFi (foldl step s evs) = WiFi s" for s
    by (induction evs arbitrary: s) (simp_all add: WiFi_step)
  then show ?thesis by (simp add: run_def)
qed

text \<open>
  C9. \<^verbatim>\<open>WiFi.begin\<close> is called exactly once in the life of the process, whatever happens
  after start-up. If the status read after the wait is not \<^verbatim>\<open>WL_CONNECTED\<close>, the WiFi
  is, from the end of the start-up on and for ever, an access point with address 1.2.3.4,
  gateway 1.2.3.1 and subnet 255.255.255.0 under the configured name and passphrase;
  otherwise it stays a station. No run of \<^verbatim>\<open>loop\<close> and no network event changes this.
\<close>

theorem C9_fallback_to_access_point:
  "length (begin_calls (WiFi (run status evs))) = 1
   \<and> (status \<noteq> WL_CONNECTED \<longrightarrow>
        WiFi (run status evs) =
          \<lparr>wmode = WIFI_AP,
           begin_calls = [(External_WiFi_SSID, External_WiFi_Password)],
           softAPConfig = Some ((1, 2, 3, 4), (1, 2, 3, 1), (255, 255, 255, 0)),
           softAP = Some (WiFi_Access_Point_Name, WiFi_Access_Point_Passw),
           server_begun = True\<rparr>)
   \<and> (status = WL_CONNECTED \<longrightarrow>
        WiFi (run status evs) =
          \<lparr>wmode = WIFI_STA,
           begin_calls = [(External_WiFi_SSID, External_WiFi_Password)],
           softAPConfig = None, softAP = None, server_begun = True\<rparr>)"
  by (simp add: WiFi_run setup_dsc_def power_on_def Let_def)

theorem C9_fallback_to_access_point_witness:
  "WL_CONNECT_FAILED \<noteq> WL_CONNECTED
   \<and> WiFi (run WL_CONNECT_FAILED [Pass None 0, PeerConnect, Pass (Some LF) 5]) =
          \<lparr>wmode = WIFI_AP,
           begin_calls = [(External_WiFi_SSID, External_WiFi_Password)],
           softAPConfig = Some ((1, 2, 3, 4), (1, 2, 3, 1), (255, 255, 255, 0)),
           softAP = Some (WiFi_Access_Point_Name, WiFi_Access_Point_Passw),
           server_begun = True\<rparr>"
  using C9_fallback_to_access_point [of WL_CONNECT_FAILED "[Pass None 0, PeerConnect, Pass (Some LF) 5]"]
  by simp


subsection \<open>The sending half\<close>

text \<open>
  The other half of the sketch runs on the Arduino Uno: every 100 ms its \<^verbatim>\<open>loop\<close> sends
  \<^verbatim>\<open>Serial.println(AzimuthEncoder.read())\<close>, the decimal text of a \<^verbatim>\<open>long\<close> followed by
  carriage return and line feed.
\<close>

definition uno_loop :: "32 word \<Rightarrow> string" where
  "uno_loop v = dec_int (sint v) @ [CR, LF]"

lemma digit_char:
  assumes "d < 10"
  shows "isdigit (char_of (48 + d))" "(of_char (char_of (48 + d) :: char) :: nat) - 48 = d"
proof -
  have "(of_char (char_of (48 + d) :: char) :: nat) = (48 + d) mod 256"
    by (simp add: of_char_of)
  then have "(of_char (char_of (48 + d) :: char) :: nat) = 48 + d"
    using assms by simp
  then show "isdigit (char_of (48 + d))" "(of_char (char_of (48 + d) :: char) :: nat) - 48 = d"
    using assms by (simp_all add: isdigit_def)
qed

lemma decimal_value_snoc:
  "decimal_value (ds @ [c]) = 10 * decimal_value ds + (of_char c - 48)"
  by (simp add: decimal_value_def)

lemma dec_nat_digits: "list_all isdigit (dec_nat n) \<and> decimal_value (dec_nat n) = n"
proof (induction n rule: dec_nat.induct)
  case (1 n)
  show ?case
  proof (cases "n < 10")
    case True
    then show ?thesis
      by (subst (1 2) dec_nat.simps) (simp add: digit_char decimal_value_def)
  next
    case False
    have m: "n mod 10 < 10" by simp
    from False 1 have "list_all isdigit (dec_nat (n div 10))"
      "decimal_value (dec_nat (n div 10)) = n div 10" by simp_all
    with False show ?thesis
      by (subst (1 2) dec_nat.simps) (simp add: digit_char [OF m] decimal_value_snoc)
  qed
qed

lemma dec_nat_length: "n < 10 ^ k \<Longrightarrow> 0 < k \<Longrightarrow> length (dec_nat n) \<le> k"
proof (induction k arbitrary: n)
  case 0
  then show ?case by simp
next
  case (Suc k)
  show ?case
  proof (cases "n < 10")
    case True
    then show ?thesis by (subst dec_nat.simps) simp
  next
    case False
    then have k: "0 < k" using Suc.prems by (cases k) auto
    have "n div 10 < 10 ^ k" using Suc.prems(1) by (simp add: less_mult_imp_div_less mult.commute)
    from Suc.IH [OF this k] False show ?thesis by (subst dec_nat.simps) simp
  qed
qed


lemma strtol10_dec_int:
  assumes "LONG_MIN \<le> i" "i \<le> LONG_MAX"
  shows "strtol10 (dec_int i) = i"
proof (cases "i < 0")
  case True
  let ?n = "nat (- i)"
  have d: "strtol_digits 0 (dec_nat ?n) = ?n"
    using dec_nat_digits [of ?n] strtol_digits_foldl [of "dec_nat ?n" 0]
    by (simp add: decimal_value_def)
  have "\<not> isspace (CHR ''-'')" by (simp add: isspace_def)
  then have "strtol10 (dec_int i) = max LONG_MIN (- int ?n)"
    using True by (simp add: strtol10_def dec_int_def d)
  then show ?thesis using True assms(1) by simp
next
  case False
  let ?n = "nat i"
  have "list_all isdigit (dec_nat ?n)" using dec_nat_digits by blast
  from strtol10_digits [OF this] have "strtol10 (dec_nat ?n) = min LONG_MAX (int ?n)"
    using dec_nat_digits [of ?n] by simp
  then show ?thesis using False assms(2) by (simp add: dec_int_def)
qed

lemma atol_dec_int: "atol (dec_int (sint v)) = v"
proof -
  have "LONG_MIN \<le> sint v" "sint v \<le> LONG_MAX"
    using sint_ge [of v] sint_lt [of v] by (simp_all add: LONG_MIN_def LONG_MAX_def)
  then show ?thesis by (simp add: atol_def strtol10_dec_int)
qed

lemma dec_int_chars:
  assumes "c \<in> set (dec_int i)"
  shows "c \<noteq> NUL \<and> c \<noteq> CR \<and> c \<noteq> LF"
proof -
  have "isdigit c \<or> c = CHR ''-''"
    using assms dec_nat_digits [of "nat i"] dec_nat_digits [of "nat (- i)"]
    by (auto simp: dec_int_def list_all_iff split: if_splits)
  then show ?thesis
    using isdigit_not_special [of c] by (auto simp: NUL_def CR_def LF_def)
qed

lemma dec_int_length:
  assumes "LONG_MIN \<le> i" "i \<le> LONG_MAX"
  shows "dec_int i \<noteq> [] \<and> length (dec_int i) \<le> 11"
proof -
  have "nat i < 10 ^ 10" "nat (- i) < 10 ^ 10"
    using assms by (simp_all add: LONG_MIN_def LONG_MAX_def)
  then have "length (dec_nat (nat i)) \<le> 10" "length (dec_nat (nat (- i))) \<le> 10"
    by (simp_all add: dec_nat_length)
  moreover have "dec_nat n \<noteq> []" for n by (subst dec_nat.simps) simp
  ultimately show ?thesis by (simp add: dec_int_def)
qed

lemma payload_map_Some: "payload (map Some ys) = filter (\<lambda>c. c \<noteq> NUL \<and> c \<noteq> CR) ys"
  by (induction ys) (simp_all add: payload_Cons)

lemma payload_line:
  assumes "\<forall>c\<in>set xs. c \<noteq> NUL \<and> c \<noteq> CR \<and> c \<noteq> LF"
  shows "payload (map Some (xs @ [CR])) = xs" "Some LF \<notin> set (map Some (xs @ [CR]))"
proof -
  have "filter (\<lambda>c. c \<noteq> NUL \<and> c \<noteq> CR) xs = xs" using assms by (simp add: filter_id_conv)
  then show "payload (map Some (xs @ [CR])) = xs"
    unfolding payload_map_Some by simp
  show "Some LF \<notin> set (map Some (xs @ [CR]))"
    using assms by (auto simp: CR_def LF_def)
qed

text \<open>
  What the Uno sends in one pass of its \<^verbatim>\<open>loop\<close>, delivered byte by byte from the start
  of a line, leaves the value sent in \<^verbatim>\<open>Azimuth_pos\<close>, negative values included.
\<close>

lemma sender_line_received:
  assumes "length (buf s) = BUFFER_SIZE" "pos s = 0"
  shows "Azimuth_pos (foldl step s (map (\<lambda>c. Pass (Some c) enc) (uno_loop v))) = v"
proof -
  let ?ds = "dec_int (sint v)"
  let ?evs = "map (\<lambda>c. Pass (Some c) enc) (?ds @ [CR])"
  have b: "LONG_MIN \<le> sint v" "sint v \<le> LONG_MAX"
    using sint_ge [of v] sint_lt [of v] by (simp_all add: LONG_MIN_def LONG_MAX_def)
  have ch: "\<forall>c\<in>set ?ds. c \<noteq> NUL \<and> c \<noteq> CR \<and> c \<noteq> LF" using dec_int_chars by blast
  have u: "uart ?evs = map Some (?ds @ [CR])" by (rule uart_map_Pass)
  have p: "payload (uart ?evs) = ?ds" and n: "Some LF \<notin> set (uart ?evs)"
    unfolding u using payload_line [OF ch] by simp_all
  have ne: "payload (uart ?evs) \<noteq> []" unfolding p using dec_int_length [OF b] by simp
  have tk: "take (BUFFER_SIZE - 1) ?ds = ?ds"
    using dec_int_length [OF b] by (simp add: BUFFER_SIZE_def)
  have e: "map (\<lambda>c. Pass (Some c) enc) (uno_loop v) = ?evs @ [Pass (Some LF) enc]"
    by (simp add: uno_loop_def)
  from line_pass [OF assms n ne, of enc] show ?thesis
    unfolding e p tk by (simp add: atol_dec_int)
qed

end
